theory Spec2Isabelle
  imports Main
begin

section \<open>References and path resolution (\<open>$.modelPath\<close>)\<close>

text \<open>
  A path is the JavaScript array of segments that \<open>$.modelPath\<close> returns. Segments are
  strings; a number in an array path is represented by its decimal rendering, which is
  the property key JavaScript derives from it.
\<close>

type_synonym path = "string list"

text \<open>
  The values a caller can pass where a reference is expected.
  \<^item> \<open>RArr\<close> is a plain array, \<open>RPath\<close> an array already marked \<open>isModelPath\<close>;
  \<^item> \<open>RElem n own ancestors\<close> is a DOM element (identity \<open>n\<close>): \<open>own\<close> is the value of
    its reference attribute (\<open>None\<close> when \<open>getAttribute\<close> gives \<open>null\<close>), \<open>ancestors\<close>
    the attribute values of the ancestors that carry the attribute, nearest first, as
    \<open>$(ref).parents('[@ref]')\<close> enumerates them;
  \<^item> \<open>RObj\<close> is any other object (no \<open>nodeType\<close>, no \<open>isModelPath\<close>, not an array).
\<close>

datatype ref =
    RUndefined | RNull | RBool bool | RNum int | RNaN | RStr string
  | RArr path | RPath path | RElem nat "string option" "string list" | RObj nat

text \<open>
  The exceptions of the code, and \<open>Beyond\<close>. \<open>Beyond\<close> is not an exception: it ends a run
  of the model at the point where the code goes on inside an object of the host (a
  built-in function or prototype, the global object), which the state does not
  describe. A result \<open>Inl Beyond\<close> says nothing about what the code does.
\<close>

datatype error = TypeError | RangeError | ReferenceError | Beyond

text \<open>\<open>$.modelOptions\<close> (the attribute name \<open>refAttr\<close> is folded into \<open>RElem\<close>).\<close>

record options =
  createArrays :: bool
  globalContext :: ref

definition default_options :: options where
  "default_options = \<lparr> createArrays = True, globalContext = RStr ''/'' \<rparr>"

text \<open>JavaScript truthiness, as used by \<open>context || $.modelOptions.globalContext\<close>.\<close>

fun truthy :: "ref \<Rightarrow> bool" where
  "truthy RUndefined = False"
| "truthy RNull = False"
| "truthy (RBool b) = b"
| "truthy (RNum n) = (n \<noteq> 0)"
| "truthy RNaN = False"
| "truthy (RStr s) = (s \<noteq> [])"
| "truthy _ = True"

text \<open>\<open>s.split('/')\<close>: never empty, \<open>''.split('/')\<close> is \<open>['']\<close>.\<close>

fun split_slash :: "string \<Rightarrow> string list" where
  "split_slash [] = [[]]"
| "split_slash (c # cs) =
     (if c = CHR ''/'' then [] # split_slash cs
      else (case split_slash cs of [] \<Rightarrow> [[c]] | w # ws \<Rightarrow> (c # w) # ws))"

text \<open>\<open>a.join('/')\<close>.\<close>

fun join_slash :: "string list \<Rightarrow> string" where
  "join_slash [] = []"
| "join_slash [w] = w"
| "join_slash (w # ws) = w @ CHR ''/'' # join_slash ws"

text \<open>The \<open>toString\<close> installed on every path: \<open>'/' + this.join('/')\<close>.\<close>

definition path_toString :: "path \<Rightarrow> string" where
  "path_toString p = CHR ''/'' # join_slash p"

text \<open>
  \<open>accumRefs\<close> run over the element and then its ancestors: each attribute is put in
  front of \<open>refs\<close>, and an attribute starting with \<open>/\<close> throws, which ends the collection.
\<close>

fun accumRefs :: "string list \<Rightarrow> string list \<Rightarrow> string list" where
  "accumRefs [] refs = refs"
| "accumRefs (attr # rest) refs =
     (if take 1 attr = ''/'' then attr # refs else accumRefs rest (attr # refs))"

definition elem_ref :: "string option \<Rightarrow> string list \<Rightarrow> string" where
  "elem_ref own ancestors =
     join_slash (accumRefs ((case own of None \<Rightarrow> [] | Some a \<Rightarrow> [a]) @ ancestors) [])"

text \<open>
  \<open>$.modelPath(ref, context)\<close>. A relative reference is resolved by a recursive call on
  \<open>context || $.modelOptions.globalContext\<close>, made with one argument, so that the call
  below it resolves against the global context again. The first argument of
  \<open>modelPath_fuel\<close> is the depth of call stack that is left: when it is used up the
  interpreter raises (\<open>RangeError\<close>, "too much recursion"), which is what happens when the
  global context is itself relative. The result is \<open>Inl e\<close> when the call raises \<open>e\<close> and
  \<open>Inr r\<close> when it returns \<open>r\<close>, which is \<open>RUndefined\<close> or a marked path. Three frames
  are enough whenever the recursion ends at all (\<open>modelPath_fuel_enough\<close>), so
  \<open>modelPath\<close> is the function at depth three.
\<close>

definition concat_onto :: "path \<Rightarrow> (error + ref) \<Rightarrow> error + ref" where
  "concat_onto p res =
     (case res of
        Inl e \<Rightarrow> Inl e
      | Inr (RPath q) \<Rightarrow> Inr (RPath (q @ p))
      | Inr _ \<Rightarrow> Inl TypeError)"

fun modelPath_fuel :: "nat \<Rightarrow> options \<Rightarrow> ref \<Rightarrow> ref \<Rightarrow> error + ref" where
  "modelPath_fuel 0 opts r context = Inl RangeError"
| "modelPath_fuel (Suc n) opts r context =
     (case r of
        RUndefined \<Rightarrow> Inr RUndefined
      | RNull \<Rightarrow> Inl TypeError
      | RPath p \<Rightarrow> Inr (RPath p)
      | RElem e own ancestors \<Rightarrow>
          (let p = split_slash (elem_ref own ancestors) in
           if hd p = [] then Inr (RPath (tl p))
           else concat_onto p
                  (modelPath_fuel n opts
                     (if truthy context then context else globalContext opts) RUndefined))
      | RStr s \<Rightarrow>
          (let p = split_slash s in
           if hd p = [] then Inr (RPath (tl p))
           else concat_onto p
                  (modelPath_fuel n opts
                     (if truthy context then context else globalContext opts) RUndefined))
      | RArr p \<Rightarrow> Inr (RPath p)
      | _ \<Rightarrow> Inr RUndefined)"

definition modelPath :: "options \<Rightarrow> ref \<Rightarrow> ref \<Rightarrow> error + ref" where
  "modelPath = modelPath_fuel 3"

section \<open>Values and properties\<close>

text \<open>
  The store is "simply a Javascript object ... intended to contain more objects/arrays
  in a hierarchical fashion", serialisable to JSON, without functions or circular
  references (the header of the source). A value is therefore a tree. Numbers are the
  integers and \<open>NaN\<close>; a string is a sequence of code units below 256. An object and
  an array carry the identity of the JavaScript object (a natural number), which is
  what \<open>===\<close> compares; an object is its own properties in insertion order, an array
  its elements (an element \<open>VUndef\<close> is a hole) and its other own properties.
  \<open>VHost n\<close> is an object of the host, known by its identity only: a built-in
  function, a prototype object, or whatever else is not of the store.
\<close>

datatype val =
    VUndef | VNull | VBool bool | VNum int | VNaN | VStr string
  | VObj nat "(string \<times> val) list"
  | VArr nat "val list" "(string \<times> val) list"
  | VHost nat

type_synonym props = "(string \<times> val) list"

text \<open>\<open>a === b\<close>.\<close>

definition strict_eq :: "val \<Rightarrow> val \<Rightarrow> bool" where
  "strict_eq a b =
     (case (a, b) of
        (VNaN, _) \<Rightarrow> False
      | (VObj i _, VObj j _) \<Rightarrow> i = j
      | (VArr i _ _, VArr j _ _) \<Rightarrow> i = j
      | _ \<Rightarrow> a = b)"

definition is_container :: "val \<Rightarrow> bool" where
  "is_container v = (case v of VObj _ _ \<Rightarrow> True | VArr _ _ _ \<Rightarrow> True | _ \<Rightarrow> False)"

definition lookup :: "props \<Rightarrow> string \<Rightarrow> val" where
  "lookup ps k = (case map_of ps k of None \<Rightarrow> VUndef | Some v \<Rightarrow> v)"

text \<open>\<open>ps\<close> with the property \<open>k\<close> set to \<open>v\<close>: in place when present, appended otherwise.\<close>

fun assign :: "string \<Rightarrow> val \<Rightarrow> props \<Rightarrow> props" where
  "assign k v [] = [(k, v)]"
| "assign k v ((k', v') # ps) = (if k' = k then (k, v) # ps else (k', v') # assign k v ps)"

subsection \<open>Numeric strings\<close>

definition is_digit :: "char \<Rightarrow> bool" where
  "is_digit c = (c \<in> set ''0123456789'')"

definition is_hex_digit :: "char \<Rightarrow> bool" where
  "is_hex_digit c = (c \<in> set ''0123456789abcdefABCDEF'')"

definition is_bin_digit :: "char \<Rightarrow> bool" where
  "is_bin_digit c = (c \<in> set ''01'')"

definition is_oct_digit :: "char \<Rightarrow> bool" where
  "is_oct_digit c = (c \<in> set ''01234567'')"

text \<open>
  \<open>StrWhiteSpaceChar\<close> among the code units below 256: tab, line feed, vertical tab,
  form feed, carriage return, space and the no-break space.
\<close>

definition is_space :: "char \<Rightarrow> bool" where
  "is_space c =
     (c \<in> set [CHR '' '', CHR 0x09, CHR 0x0A, CHR 0x0B, CHR 0x0C, CHR 0x0D, CHR 0xA0])"

definition hex_val :: "char \<Rightarrow> int" where
  "hex_val c =
     (let n = int (of_char c :: nat) in
      if is_digit c then n - 48 else if n \<ge> 97 then n - 87 else n - 55)"

definition digits_val :: "string \<Rightarrow> int" where
  "digits_val ds = foldl (\<lambda>a c. 10 * a + hex_val c) 0 ds"

definition radix_val :: "int \<Rightarrow> string \<Rightarrow> int" where
  "radix_val b ds = foldl (\<lambda>a c. b * a + hex_val c) 0 ds"

text \<open>
  A number as \<open>ToNumber\<close> gives it for a string: \<open>Dec m k\<close> is \<open>m * 10 ^ k\<close>, before
  any rounding to a double.
\<close>

datatype jsnum = NaN | Infinity bool | Dec int int

definition trim :: "string \<Rightarrow> string" where
  "trim s = rev (dropWhile is_space (rev (dropWhile is_space s)))"

text \<open>The exponent part after \<open>e\<close> or \<open>E\<close>: an optional sign and at least one digit.\<close>

definition parse_exponent :: "string \<Rightarrow> int option" where
  "parse_exponent s =
     (let (neg, ds) = (case s of
                         c # r \<Rightarrow> if c = CHR ''-'' then (True, r)
                                  else if c = CHR ''+'' then (False, r) else (False, s)
                       | [] \<Rightarrow> (False, s)) in
      if ds \<noteq> [] \<and> list_all is_digit ds
      then Some (if neg then - digits_val ds else digits_val ds) else None)"

text \<open>
  An unsigned \<open>StrDecimalLiteral\<close> other than \<open>Infinity\<close>: digits, an optional fraction
  and an optional exponent, with a digit before or after the point.
\<close>

definition parse_decimal :: "string \<Rightarrow> (int \<times> int) option" where
  "parse_decimal s =
     (let ip = takeWhile is_digit s;
          r1 = dropWhile is_digit s;
          (fp, r2) = (case r1 of
                        c # r \<Rightarrow> if c = CHR ''.''
                                 then (takeWhile is_digit r, dropWhile is_digit r) else ([], r1)
                      | [] \<Rightarrow> ([], r1)) in
      if ip = [] \<and> fp = [] then None
      else (case r2 of
              [] \<Rightarrow> Some (digits_val (ip @ fp), - int (length fp))
            | c # r3 \<Rightarrow>
                if c = CHR ''e'' \<or> c = CHR ''E''
                then (case parse_exponent r3 of
                        None \<Rightarrow> None
                      | Some e \<Rightarrow> Some (digits_val (ip @ fp), e - int (length fp)))
                else None))"

text \<open>
  \<open>ToNumber\<close> of a string (\<open>StringToNumber\<close> of ECMAScript 2015 and later): white space
  is trimmed, the empty string is 0, a binary, octal or hexadecimal literal takes no
  sign, and everything else is a signed decimal literal or \<open>NaN\<close>.
\<close>

definition str_to_number :: "string \<Rightarrow> jsnum" where
  "str_to_number s =
     (let t = trim s in
      if t = [] then Dec 0 0
      else if length t > 2 \<and> (take 2 t = ''0x'' \<or> take 2 t = ''0X'') \<and> list_all is_hex_digit (drop 2 t)
      then Dec (radix_val 16 (drop 2 t)) 0
      else if length t > 2 \<and> (take 2 t = ''0o'' \<or> take 2 t = ''0O'') \<and> list_all is_oct_digit (drop 2 t)
      then Dec (radix_val 8 (drop 2 t)) 0
      else if length t > 2 \<and> (take 2 t = ''0b'' \<or> take 2 t = ''0B'') \<and> list_all is_bin_digit (drop 2 t)
      then Dec (radix_val 2 (drop 2 t)) 0
      else
        (let (neg, body) = (if hd t = CHR ''-'' then (True, tl t)
                            else if hd t = CHR ''+'' then (False, tl t) else (False, t)) in
         if body = ''Infinity'' then Infinity neg
         else (case parse_decimal body of
                 None \<Rightarrow> NaN
               | Some (m, k) \<Rightarrow> Dec (if neg then - m else m) k)))"

text \<open>The global function \<open>isNaN\<close> on a path segment.\<close>

definition isNaN :: "string \<Rightarrow> bool" where
  "isNaN s = (str_to_number s = NaN)"

text \<open>
  An array index: the canonical decimal rendering of an integer below \<open>2^32 - 1\<close>.
\<close>

definition array_index :: "string \<Rightarrow> nat option" where
  "array_index k =
     (if k \<noteq> [] \<and> list_all is_digit k \<and> (k = ''0'' \<or> hd k \<noteq> CHR ''0'')
         \<and> digits_val k < 4294967295
      then Some (nat (digits_val k)) else None)"

subsection \<open>Inherited properties\<close>

text \<open>
  What a value inherits depends on the host: the built-in prototypes differ from one
  interpreter to the next, and a page can add to them. It is a parameter of the model.
  For each kind of value that has a prototype, the table lists the properties found
  along its prototype chain: the name, the value that a read gives, and whether
  \<open>for (name in o)\<close> enumerates the property. An array or a string is taken to
  inherit no property whose name is an array index.
\<close>

datatype kind = KObject | KArray | KString | KNumber | KBoolean

type_synonym prototypes = "kind \<Rightarrow> (string \<times> val \<times> bool) list"

definition kind_of :: "val \<Rightarrow> kind option" where
  "kind_of v =
     (case v of
        VObj i ps \<Rightarrow> Some KObject | VArr i xs ps \<Rightarrow> Some KArray | VStr t \<Rightarrow> Some KString
      | VNum n \<Rightarrow> Some KNumber | VNaN \<Rightarrow> Some KNumber | VBool b \<Rightarrow> Some KBoolean
      | _ \<Rightarrow> None)"

text \<open>The property \<open>k\<close> that the value \<open>v\<close> inherits, if any.\<close>

definition inherited_prop :: "prototypes \<Rightarrow> val \<Rightarrow> string \<Rightarrow> (val \<times> bool) option" where
  "inherited_prop H v k =
     (case kind_of v of
        None \<Rightarrow> None
      | Some kd \<Rightarrow>
          if (kd = KArray \<or> kd = KString) \<and> array_index k \<noteq> None then None
          else map_of (H kd) k)"

subsection \<open>Reading, writing and deleting a property\<close>

text \<open>
  The own properties. An array owns its \<open>length\<close>, its elements other than holes and
  its named properties; a string its \<open>length\<close> and its characters.
\<close>

fun has_own :: "val \<Rightarrow> string \<Rightarrow> bool" where
  "has_own (VObj _ ps) k = (map_of ps k \<noteq> None)"
| "has_own (VArr _ xs ps) k =
     (case array_index k of
        Some n \<Rightarrow> n < length xs \<and> xs ! n \<noteq> VUndef
      | None \<Rightarrow> k = ''length'' \<or> map_of ps k \<noteq> None)"
| "has_own (VStr s) k =
     (case array_index k of Some n \<Rightarrow> n < length s | None \<Rightarrow> k = ''length'')"
| "has_own _ k = False"

text \<open>The value of the own property \<open>k\<close>, \<open>undefined\<close> when there is none.\<close>

fun own_prop :: "val \<Rightarrow> string \<Rightarrow> val" where
  "own_prop (VObj _ ps) k = lookup ps k"
| "own_prop (VArr _ xs ps) k =
     (case array_index k of
        Some n \<Rightarrow> if n < length xs then xs ! n else VUndef
      | None \<Rightarrow> if k = ''length'' then VNum (int (length xs)) else lookup ps k)"
| "own_prop (VStr s) k =
     (case array_index k of
        Some n \<Rightarrow> if n < length s then VStr [s ! n] else VUndef
      | None \<Rightarrow> if k = ''length'' then VNum (int (length s)) else VUndef)"
| "own_prop _ k = VUndef"

text \<open>
  \<open>o[k]\<close> read on a value of the store that is neither \<open>undefined\<close> nor \<open>null\<close>: the
  own property, or else the inherited one.
\<close>

definition get_prop :: "prototypes \<Rightarrow> val \<Rightarrow> string \<Rightarrow> val" where
  "get_prop H v k =
     (if has_own v k then own_prop v k
      else (case inherited_prop H v k of None \<Rightarrow> VUndef | Some (x, e) \<Rightarrow> x))"

text \<open>
  \<open>ToNumber\<close> of a primitive value. For an object it runs \<open>valueOf\<close> and \<open>toString\<close>,
  which are the host's (\<open>None\<close>).
\<close>

definition to_number :: "val \<Rightarrow> jsnum option" where
  "to_number v =
     (case v of
        VUndef \<Rightarrow> Some NaN
      | VNull \<Rightarrow> Some (Dec 0 0)
      | VBool b \<Rightarrow> Some (Dec (if b then 1 else 0) 0)
      | VNum n \<Rightarrow> Some (Dec n 0)
      | VNaN \<Rightarrow> Some NaN
      | VStr t \<Rightarrow> Some (str_to_number t)
      | _ \<Rightarrow> None)"

text \<open>The number as an array length, when it is an integer from 0 to \<open>2^32 - 1\<close>.\<close>

definition uint32_of :: "jsnum \<Rightarrow> nat option" where
  "uint32_of x =
     (case x of
        Dec m k \<Rightarrow>
          (if 0 \<le> k then (if 0 \<le> m * 10 ^ nat k \<and> m * 10 ^ nat k < 4294967296
                           then Some (nat (m * 10 ^ nat k)) else None)
           else if m mod 10 ^ nat (- k) = 0 \<and> 0 \<le> m \<and> m div 10 ^ nat (- k) < 4294967296
           then Some (nat (m div 10 ^ nat (- k))) else None)
      | _ \<Rightarrow> None)"

text \<open>
  The own property \<open>k\<close> of an object or an array set to \<open>v\<close>. An array grows to hold an
  index, and assigning its \<open>length\<close> resizes it or raises \<open>RangeError\<close>.
\<close>

fun own_set :: "val \<Rightarrow> string \<Rightarrow> val \<Rightarrow> error + val" where
  "own_set (VObj i ps) k v = Inr (VObj i (assign k v ps))"
| "own_set (VArr i xs ps) k v =
     (case array_index k of
        Some n \<Rightarrow> Inr (VArr i ((xs @ replicate (Suc n - length xs) VUndef)[n := v]) ps)
      | None \<Rightarrow>
          if k = ''length''
          then (case to_number v of
                  None \<Rightarrow> Inl Beyond
                | Some x \<Rightarrow>
                    (case uint32_of x of
                       None \<Rightarrow> Inl RangeError
                     | Some n \<Rightarrow> Inr (VArr i (take n xs @ replicate (n - length xs) VUndef) ps)))
          else Inr (VArr i xs (assign k v ps)))"
| "own_set o' k v = Inr o'"

text \<open>
  \<open>o[k] = v\<close> on an object or an array of the store. Where \<open>o\<close> has no own property \<open>k\<close>
  and inherits one, the assignment is the host's affair: it may run a setter (as for
  \<open>__proto__\<close>), be dropped (a property that is not writable) or create the own
  property.
\<close>

definition set_prop :: "prototypes \<Rightarrow> val \<Rightarrow> string \<Rightarrow> val \<Rightarrow> error + val" where
  "set_prop H m k v =
     (if \<not> has_own m k \<and> inherited_prop H m k \<noteq> None then Inl Beyond else own_set m k v)"

text \<open>\<open>ToInteger\<close>, with the two infinities kept apart from the integers.\<close>

definition to_integer :: "jsnum \<Rightarrow> int + bool" where
  "to_integer x =
     (case x of
        NaN \<Rightarrow> Inl 0
      | Infinity neg \<Rightarrow> Inr neg
      | Dec m k \<Rightarrow>
          Inl (if 0 \<le> k then m * 10 ^ nat k
               else if 0 \<le> m then m div 10 ^ nat (- k) else - ((- m) div 10 ^ nat (- k))))"

text \<open>
  \<open>xs.splice(k, 1)\<close>: the elements left in the array. The start is \<open>ToInteger\<close> of the
  double nearest to the number that \<open>k\<close> denotes; where rounding to the double could
  move a fraction across an integer (sixteen digits or more) the model does not say
  (\<open>None\<close>).
\<close>

definition splice_one :: "val list \<Rightarrow> string \<Rightarrow> val list option" where
  "splice_one xs k =
     (case str_to_number k of
        Dec m e \<Rightarrow>
          if e < 0 \<and> 1000000000000000 \<le> \<bar>m\<bar> then None
          else (let len = int (length xs);
                    n = (case to_integer (Dec m e) of Inl n \<Rightarrow> n | Inr neg \<Rightarrow> 0);
                    start = (if n < 0 then max (len + n) 0 else min n len) in
                Some (take (nat start) xs @ drop (Suc (nat start)) xs))
      | Infinity neg \<Rightarrow> Some (if neg then drop 1 xs else xs)
      | NaN \<Rightarrow> Some (drop 1 xs))"

text \<open>\<open>delete o[k]\<close>: an array element becomes a hole, \<open>length\<close> cannot be deleted.\<close>

fun delete_prop :: "val \<Rightarrow> string \<Rightarrow> val" where
  "delete_prop (VObj i ps) k = VObj i (filter (\<lambda>kv. fst kv \<noteq> k) ps)"
| "delete_prop (VArr i xs ps) k =
     (case array_index k of
        Some n \<Rightarrow> VArr i (if n < length xs then xs[n := VUndef] else xs) ps
      | None \<Rightarrow> VArr i xs (filter (\<lambda>kv. fst kv \<noteq> k) ps))"
| "delete_prop o' k = o'"

text \<open>Truthiness of a value.\<close>

fun truthy_val :: "val \<Rightarrow> bool" where
  "truthy_val VUndef = False"
| "truthy_val VNull = False"
| "truthy_val (VBool b) = b"
| "truthy_val (VNum n) = (n \<noteq> 0)"
| "truthy_val VNaN = False"
| "truthy_val (VStr s) = (s \<noteq> [])"
| "truthy_val _ = True"

subsection \<open>Positions in the store\<close>

text \<open>
  A reference to a container of the store is the position of the container: the keys
  that lead to it from the root. \<open>get_at\<close> reads the value at a position and \<open>put_at\<close>
  replaces it.
\<close>

definition get_at :: "val \<Rightarrow> path \<Rightarrow> val" where
  "get_at m loc = foldl own_prop m loc"

definition put_child :: "val \<Rightarrow> string \<Rightarrow> val \<Rightarrow> val" where
  "put_child m k c = (case own_set m k c of Inr m' \<Rightarrow> m' | Inl e \<Rightarrow> m)"

fun put_at :: "val \<Rightarrow> path \<Rightarrow> val \<Rightarrow> val" where
  "put_at m [] v = v"
| "put_at m (k # ks) v = put_child m k (put_at (own_prop m k) ks v)"

section \<open>The state of the library\<close>

text \<open>
  An observer in \<open>$.modelBinding\<close> is a function (\<open>Callback\<close>, with its identity) or any
  other value (\<open>Target\<close>: an element, or the reference given to \<open>$.modelBind\<close>). What a
  callback or an \<open>update\<close> handler does when it runs is outside the library: a delivery
  is recorded in \<open>events\<close>, in the order in which it is made, with the \<open>data\<close> object it
  carries.
\<close>

datatype observer = Callback nat | Target ref

text \<open>
  The object a visitor runs on (\<open>this\<close> of \<open>callback.call(parent, path, i)\<close> in a
  non-strict function): the container of the store at a position, the fresh wrapper of
  a primitive value with the properties written to it so far, or the global object
  when \<open>parent\<close> is \<open>undefined\<close> or \<open>null\<close>.
\<close>

datatype this = TNode path | TWrap val props | TGlobal

datatype receiver = Container val | Boxed val | GlobalObject

record change =
  c_value :: val
  c_path :: path
  c_pathIndex :: nat
  c_parent :: receiver

datatype event = Called nat change | Update ref change

text \<open>
  Beside the store, the registry and the options, the state holds what the library
  sees of its host: \<open>inherited\<close>, the properties that values inherit, and \<open>global\<close>,
  what a read of a property of the global object gives. The library changes neither
  in a run that the model follows to its end. The registry is the object
  \<open>$.modelBinding\<close> read under keys that begin with \<open>/\<close>, and no inherited property is
  taken to have such a name.
\<close>

record state =
  model :: val
  global :: props
  inherited :: prototypes
  modelBinding :: "string \<rightharpoonup> observer list"
  modelOptions :: options
  next_id :: nat
  events :: "event list"

text \<open>
  \<open>Array.prototype.splice\<close> and the constructor \<open>Array\<close> are the host objects 0 and 1.
\<close>

definition array_splice :: val where
  "array_splice = VHost 0"

definition array_constructor :: val where
  "array_constructor = VHost 1"

text \<open>
  A host with the built-in prototypes of ECMAScript 2023, none of their properties
  enumerable: the table of a kind lists the names of its own prototype and then those
  of \<open>Object.prototype\<close>.
\<close>

definition host_table :: "nat \<Rightarrow> string list \<Rightarrow> (string \<times> val \<times> bool) list" where
  "host_table base names =
     map (\<lambda>n. (names ! n, VHost (base + n), False)) [0 ..< length names]"

definition object_names :: "string list" where
  "object_names =
     [''constructor'', ''__defineGetter__'', ''__defineSetter__'', ''hasOwnProperty'',
      ''__lookupGetter__'', ''__lookupSetter__'', ''isPrototypeOf'', ''propertyIsEnumerable'',
      ''toString'', ''valueOf'', ''__proto__'', ''toLocaleString'']"

definition array_names :: "string list" where
  "array_names =
     [''at'', ''concat'', ''copyWithin'', ''fill'', ''find'', ''findIndex'', ''findLast'',
      ''findLastIndex'', ''lastIndexOf'', ''pop'', ''push'', ''reverse'', ''shift'', ''unshift'',
      ''slice'', ''sort'', ''includes'', ''indexOf'', ''join'', ''keys'', ''entries'', ''values'',
      ''forEach'', ''filter'', ''flat'', ''flatMap'', ''map'', ''every'', ''some'', ''reduce'',
      ''reduceRight'', ''toLocaleString'', ''toString'', ''toReversed'', ''toSorted'',
      ''toSpliced'', ''with'', ''__proto__'']"

definition string_names :: "string list" where
  "string_names =
     [''constructor'', ''anchor'', ''at'', ''big'', ''blink'', ''bold'', ''charAt'',
      ''charCodeAt'', ''codePointAt'', ''concat'', ''endsWith'', ''fontcolor'', ''fontsize'',
      ''fixed'', ''includes'', ''indexOf'', ''isWellFormed'', ''italics'', ''lastIndexOf'',
      ''link'', ''localeCompare'', ''match'', ''matchAll'', ''normalize'', ''padEnd'',
      ''padStart'', ''repeat'', ''replace'', ''replaceAll'', ''search'', ''slice'', ''small'',
      ''split'', ''strike'', ''sub'', ''substr'', ''substring'', ''sup'', ''startsWith'',
      ''toString'', ''toWellFormed'', ''trim'', ''trimStart'', ''trimLeft'', ''trimEnd'',
      ''trimRight'', ''toLocaleLowerCase'', ''toLocaleUpperCase'', ''toLowerCase'',
      ''toUpperCase'', ''valueOf'', ''__proto__'']"

definition number_names :: "string list" where
  "number_names =
     [''constructor'', ''toExponential'', ''toFixed'', ''toPrecision'', ''toString'',
      ''valueOf'', ''toLocaleString'', ''__proto__'']"

definition boolean_names :: "string list" where
  "boolean_names = [''constructor'', ''toString'', ''valueOf'', ''__proto__'']"

definition host_prototypes :: prototypes where
  "host_prototypes kd =
     (case kd of
        KObject \<Rightarrow> host_table 100 object_names
      | KArray \<Rightarrow>
          (''splice'', array_splice, False) # (''constructor'', array_constructor, False)
            # host_table 200 array_names @ host_table 100 object_names
      | KString \<Rightarrow> host_table 300 string_names @ host_table 100 object_names
      | KNumber \<Rightarrow> host_table 400 number_names @ host_table 100 object_names
      | KBoolean \<Rightarrow> host_table 500 boolean_names @ host_table 100 object_names)"

text \<open>
  The state after the script has loaded in such a host: \<open>$.model = {}\<close>,
  \<open>$.modelBinding = {}\<close>. Of the properties of the global object, those listed are
  taken to exist, with what the global object inherits from \<open>Object.prototype\<close>.
\<close>

definition init :: state where
  "init = \<lparr> model = VObj 0 [],
            global = [(''window'', VHost 10), (''self'', VHost 10), (''document'', VHost 11),
                      (''location'', VHost 12), (''navigator'', VHost 13),
                      (''jQuery'', VHost 14), (''$'', VHost 14)]
                     @ map (\<lambda>e. (fst e, fst (snd e))) (host_table 100 object_names),
            inherited = host_prototypes, modelBinding = Map.empty,
            modelOptions = default_options, next_id = 1, events = [] \<rparr>"

text \<open>
  The value of the variable \<open>parent\<close> of \<open>$.modelWalk\<close>: a container of the store, held
  by its position, or a value that is not a container of the store.
\<close>

datatype jsval = Located path | Detached val

definition deref :: "state \<Rightarrow> jsval \<Rightarrow> val" where
  "deref s x = (case x of Located loc \<Rightarrow> get_at (model s) loc | Detached v \<Rightarrow> v)"

definition root :: "state \<Rightarrow> jsval" where
  "root s = (if is_container (model s) then Located [] else Detached (model s))"

text \<open>
  An object that is not held by its position in the store is an object of the host: a
  host object proper, or an object or array that a value inherits.
\<close>

definition is_host :: "jsval \<Rightarrow> bool" where
  "is_host x =
     (case x of
        Located loc \<Rightarrow> False
      | Detached v \<Rightarrow> (case v of VHost n \<Rightarrow> True | _ \<Rightarrow> is_container v))"

text \<open>
  \<open>parent[k]\<close> in \<open>$.modelWalk\<close>: a \<open>TypeError\<close> on \<open>undefined\<close> and \<open>null\<close>. The result is
  held by its position when it is an own property and a container.
\<close>

definition js_read :: "state \<Rightarrow> jsval \<Rightarrow> string \<Rightarrow> error + jsval" where
  "js_read s x k =
     (case x of
        Located loc \<Rightarrow>
          (let node = get_at (model s) loc in
           Inr (if is_container (own_prop node k) then Located (loc @ [k])
                else Detached (get_prop (inherited s) node k)))
      | Detached v \<Rightarrow>
          if v = VUndef \<or> v = VNull then Inl TypeError
          else if is_host (Detached v) then Inl Beyond
          else Inr (Detached (get_prop (inherited s) v k)))"

text \<open>\<open>this\<close> for a \<open>parent\<close> that is not a host object.\<close>

definition the_this :: "jsval \<Rightarrow> this" where
  "the_this x =
     (case x of
        Located loc \<Rightarrow> TNode loc
      | Detached VUndef \<Rightarrow> TGlobal
      | Detached VNull \<Rightarrow> TGlobal
      | Detached v \<Rightarrow> TWrap v [])"

text \<open>\<open>this[k]\<close> read inside a visitor.\<close>

definition this_get :: "state \<Rightarrow> this \<Rightarrow> string \<Rightarrow> val" where
  "this_get s th k =
     (case th of
        TNode loc \<Rightarrow> get_prop (inherited s) (get_at (model s) loc) k
      | TWrap v ps \<Rightarrow>
          (if has_own v k then own_prop v k
           else (case map_of ps k of Some x \<Rightarrow> x | None \<Rightarrow> get_prop (inherited s) v k))
      | TGlobal \<Rightarrow> lookup (global s) k)"

text \<open>
  \<open>this[k] = v\<close>. A write to a wrapper stays in the wrapper (and a write to an index or
  to the \<open>length\<close> of a string is ignored); what a write to the global object does is
  the host's affair.
\<close>

definition this_set :: "this \<Rightarrow> string \<Rightarrow> val \<Rightarrow> state \<Rightarrow> (error + this) \<times> state" where
  "this_set th k v s =
     (case th of
        TNode loc \<Rightarrow>
          (case set_prop (inherited s) (get_at (model s) loc) k v of
             Inl e \<Rightarrow> (Inl e, s)
           | Inr node \<Rightarrow> (Inr th, s\<lparr>model := put_at (model s) loc node\<rparr>))
      | TWrap w ps \<Rightarrow>
          (if has_own w k then (Inr (TWrap w ps), s)
           else if map_of ps k = None \<and> inherited_prop (inherited s) w k \<noteq> None
           then (Inl Beyond, s)
           else (Inr (TWrap w (assign k v ps)), s))
      | TGlobal \<Rightarrow> (Inl Beyond, s))"

definition receiver_of :: "state \<Rightarrow> this \<Rightarrow> receiver" where
  "receiver_of s th =
     (case th of
        TNode loc \<Rightarrow> Container (get_at (model s) loc)
      | TWrap v ps \<Rightarrow> Boxed v
      | TGlobal \<Rightarrow> GlobalObject)"

section \<open>\<open>$.modelWalk\<close>\<close>

text \<open>
  A visitor is the callback of \<open>$.modelWalk\<close>: it runs on \<open>this\<close> with the path and the
  index, reads and writes the variables of its closure (\<open>'a\<close>) and the state, and returns
  or raises.
\<close>

type_synonym 'a visitor = "this \<Rightarrow> path \<Rightarrow> nat \<Rightarrow> 'a \<times> state \<Rightarrow> (error + unit) \<times> 'a \<times> state"

text \<open>
  The loop \<open>for (var i = 0; i < path.length; i++)\<close>, from index \<open>i\<close> on. The model ends
  where a segment is to be read on a host object.
\<close>

function walk_from ::
  "'a visitor \<Rightarrow> path \<Rightarrow> nat \<Rightarrow> jsval \<Rightarrow> 'a \<times> state \<Rightarrow> (error + jsval) \<times> 'a \<times> state" where
  "walk_from callback p i parent (a, s) =
     (if i < length p
      then (if is_host parent then (Inl Beyond, a, s)
            else (case callback (the_this parent) p i (a, s) of
                    (Inl e, a', s') \<Rightarrow> (Inl e, a', s')
                  | (Inr u, a', s') \<Rightarrow>
                      (case js_read s' parent (p ! i) of
                         Inl e \<Rightarrow> (Inl e, a', s')
                       | Inr child \<Rightarrow> walk_from callback p (Suc i) child (a', s'))))
      else (Inr parent, a, s))"
  by pat_completeness auto
termination
  by (relation "measure (\<lambda>(callback, p, i, parent, a, s). length p - i)") auto

text \<open>
  \<open>$.modelWalk(ref, callback, context)\<close>: nothing is walked and \<open>undefined\<close> is returned
  when the reference does not resolve.
\<close>

definition modelWalk ::
  "ref \<Rightarrow> 'a visitor \<Rightarrow> ref \<Rightarrow> 'a \<times> state \<Rightarrow> (error + jsval) \<times> 'a \<times> state" where
  "modelWalk r callback context as =
     (case modelPath (modelOptions (snd as)) r context of
        Inl e \<Rightarrow> (Inl e, as)
      | Inr (RPath p) \<Rightarrow> walk_from callback p 0 (root (snd as)) as
      | Inr other \<Rightarrow> (Inr (Detached VUndef), as))"

section \<open>\<open>$.modelTrigger\<close>\<close>

text \<open>
  What one observer \<open>b\<close> receives at index \<open>i\<close>: a function is called with \<open>data\<close> as
  \<open>this\<close>; any other observer gets the \<open>update\<close> event unless it is \<open>src\<close>.
\<close>

definition notify :: "ref \<Rightarrow> this \<Rightarrow> path \<Rightarrow> nat \<Rightarrow> state \<Rightarrow> observer \<Rightarrow> event list" where
  "notify src self p i s b =
     (let data = \<lparr> c_value = this_get s self (p ! i), c_path = p, c_pathIndex = i,
                   c_parent = receiver_of s self \<rparr> in
      case b of
        Callback f \<Rightarrow> [Called f data]
      | Target t \<Rightarrow> if t \<noteq> src \<or> t = RNaN then [Update t data] else [])"

text \<open>The callback of the walk in \<open>$.modelTrigger\<close>.\<close>

definition trigger_visit :: "ref \<Rightarrow> unit visitor" where
  "trigger_visit src self p i us =
     (case modelBinding (snd us) (path_toString (take (Suc i) p)) of
        None \<Rightarrow> (Inr (), us)
      | Some bindings \<Rightarrow>
          (Inr (), fst us,
           (snd us)\<lparr>events := events (snd us) @ concat (map (notify src self p i (snd us)) bindings)\<rparr>))"

definition modelTrigger :: "ref \<Rightarrow> ref \<Rightarrow> string \<Rightarrow> ref \<Rightarrow> state \<Rightarrow> (error + val) \<times> state" where
  "modelTrigger r context event src s =
     (case modelWalk r (trigger_visit src) context ((), s) of
        (Inl e, u, s') \<Rightarrow> (Inl e, s')
      | (Inr x, u, s') \<Rightarrow> (Inr VUndef, s'))"

section \<open>\<open>modelValue\<close> and the operations on the store\<close>

text \<open>The container that the walk creates: \<open>isNaN(path[i+1]) || !createArrays ? {} : []\<close>.\<close>

definition fresh_container :: "state \<Rightarrow> string \<Rightarrow> val" where
  "fresh_container s nxt =
     (if isNaN nxt \<or> \<not> createArrays (modelOptions s)
      then VObj (next_id s) [] else VArr (next_id s) [] [])"

text \<open>
  The callback of the walk in \<open>modelValue\<close>. The variables of its closure are \<open>parent\<close>
  and \<open>prop\<close>, both \<open>undefined\<close> (\<open>None\<close>) before the first call.
\<close>

definition value_visit :: "nat \<Rightarrow> (this option \<times> string option) visitor" where
  "value_visit mode self p i cs =
     (let s = snd cs; prop = p ! i in
      if this_get s self prop = VUndef \<and> i < length p - 1
      then (if mode = 2 then (Inl ReferenceError, (fst (fst cs), Some prop), s)
            else (case this_set self prop (fresh_container s (p ! Suc i))
                         (s\<lparr>next_id := Suc (next_id s)\<rparr>) of
                    (Inl e, s') \<Rightarrow> (Inl e, (fst (fst cs), Some prop), s')
                  | (Inr self', s') \<Rightarrow> (Inr (), (Some self', Some prop), s')))
      else (Inr (), (Some self, Some prop), s))"

text \<open>
  \<open>parent.splice(prop, 1)\<close>, where \<open>m\<close> is the truthy value of \<open>parent.splice\<close>. The
  method of arrays removes an element of an array of the store (its result is built
  by the constructor that the array inherits); what it or another host function does
  otherwise is the host's affair, and a value of the store is not a function.
\<close>

definition call_splice :: "val \<Rightarrow> this \<Rightarrow> string \<Rightarrow> state \<Rightarrow> error + state" where
  "call_splice m th k s =
     (if m = array_splice then
        (case th of
           TNode loc \<Rightarrow>
             (case get_at (model s) loc of
                VArr i xs ps \<Rightarrow>
                  (case splice_one xs k of
                     Some ys \<Rightarrow>
                       if get_prop (inherited s) (VArr i xs ps) ''constructor'' = array_constructor
                       then Inr (s\<lparr>model := put_at (model s) loc (VArr i ys ps)\<rparr>)
                       else Inl Beyond
                   | None \<Rightarrow> Inl Beyond)
              | v \<Rightarrow> Inl Beyond)
         | _ \<Rightarrow> Inl Beyond)
      else (case m of VHost n \<Rightarrow> Inl Beyond | _ \<Rightarrow> Inl TypeError))"

text \<open>\<open>delete parent[prop]\<close>: an own property goes, an inherited one stays.\<close>

definition this_delete :: "this \<Rightarrow> string \<Rightarrow> state \<Rightarrow> error + state" where
  "this_delete th k s =
     (case th of
        TNode loc \<Rightarrow>
          Inr (s\<lparr>model := put_at (model s) loc (delete_prop (get_at (model s) loc) k)\<rparr>)
      | TWrap w ps \<Rightarrow> Inr s
      | TGlobal \<Rightarrow> Inl Beyond)"

text \<open>
  \<open>modelValue(path, mode, value, src)\<close>; mode 1 sets, mode 2 deletes, any other mode
  gets. The result is the value returned or the exception raised, with the state the
  call leaves behind in either case.
\<close>

definition modelValue :: "ref \<Rightarrow> nat \<Rightarrow> val \<Rightarrow> ref \<Rightarrow> state \<Rightarrow> (error + val) \<times> state" where
  "modelValue path' mode v src s =
     (case modelWalk path' (value_visit mode) RUndefined ((None, None), s) of
        (Inl ex, c, s1) \<Rightarrow>
          (if mode = 2 \<and> ex = ReferenceError then (Inr VUndef, s1) else (Inl ex, s1))
      | (Inr x, (parent, prop'), s1) \<Rightarrow>
          (let currval = deref s1 x; prop = (case prop' of None \<Rightarrow> ''undefined'' | Some k \<Rightarrow> k) in
           if mode = 1 then
             (case parent of
                None \<Rightarrow> (Inl TypeError, s1)
              | Some th \<Rightarrow>
                  if \<not> strict_eq (this_get s1 th prop) v
                  then (case this_set th prop v s1 of
                          (Inl ex, s2) \<Rightarrow> (Inl ex, s2)
                        | (Inr th', s2) \<Rightarrow>
                            (case modelTrigger path' RUndefined ''set'' src s2 of
                               (Inl ex, s3) \<Rightarrow> (Inl ex, s3)
                             | (Inr u, s3) \<Rightarrow> (Inr (this_get s3 th' prop), s3)))
                  else (Inr (this_get s1 th prop), s1))
           else if mode = 2 then
             (case parent of
                None \<Rightarrow> (Inl TypeError, s1)
              | Some th \<Rightarrow>
                  (case (if truthy_val (this_get s1 th ''splice'')
                         then call_splice (this_get s1 th ''splice'') th prop s1
                         else this_delete th prop s1) of
                     Inl ex \<Rightarrow> (Inl ex, s1)
                   | Inr s2 \<Rightarrow>
                       (case modelTrigger path' RUndefined ''delete'' src s2 of
                          (Inl ex, s3) \<Rightarrow> (Inl ex, s3)
                        | (Inr u, s3) \<Rightarrow> (Inr currval, s3))))
           else (Inr currval, s1)))"

text \<open>
  The public operations resolve the reference first and hand the result, a path or
  \<open>undefined\<close>, to \<open>modelValue\<close>.
\<close>

definition modelGet :: "ref \<Rightarrow> ref \<Rightarrow> state \<Rightarrow> (error + val) \<times> state" where
  "modelGet r context s =
     (case modelPath (modelOptions s) r context of
        Inl e \<Rightarrow> (Inl e, s)
      | Inr p \<Rightarrow> modelValue p 0 VUndef RUndefined s)"

definition modelSet :: "ref \<Rightarrow> val \<Rightarrow> ref \<Rightarrow> ref \<Rightarrow> state \<Rightarrow> (error + val) \<times> state" where
  "modelSet r v context src s =
     (case modelPath (modelOptions s) r context of
        Inl e \<Rightarrow> (Inl e, s)
      | Inr p \<Rightarrow> modelValue p 1 v src s)"

definition modelDelete :: "ref \<Rightarrow> ref \<Rightarrow> state \<Rightarrow> (error + val) \<times> state" where
  "modelDelete r context s =
     (case modelPath (modelOptions s) r context of
        Inl e \<Rightarrow> (Inl e, s)
      | Inr p \<Rightarrow> modelValue p 2 VUndef RUndefined s)"

subsection \<open>\<open>$.modelDefaults\<close>\<close>

text \<open>The decimal rendering of an array index, as \<open>for (name in options)\<close> yields it.\<close>

fun decimal :: "nat \<Rightarrow> string" where
  "decimal n =
     (if n < 10 then [char_of (48 + n)] else decimal (n div 10) @ [char_of (48 + n mod 10)])"

text \<open>
  The properties that \<open>for (name in o)\<close> enumerates, each name once with the value that
  \<open>o[name]\<close> reads: the own properties of an object, the elements and then the other
  properties of an array, the characters of a string, and after them the enumerable
  properties that the value inherits and does not own. For a host object the
  enumeration is the host's (\<open>None\<close>); \<open>undefined\<close> and \<open>null\<close> have nothing to
  enumerate.
\<close>

definition own_props :: "props \<Rightarrow> props" where
  "own_props ps = map (\<lambda>k. (k, lookup ps k)) (remdups (map fst ps))"

definition own_enum :: "val \<Rightarrow> props" where
  "own_enum v =
     (case v of
        VObj i ps \<Rightarrow> own_props ps
      | VArr i xs ps \<Rightarrow>
          map (\<lambda>n. (decimal n, xs ! n)) (filter (\<lambda>n. xs ! n \<noteq> VUndef) [0 ..< length xs])
            @ own_props ps
      | VStr t \<Rightarrow> map (\<lambda>n. (decimal n, VStr [t ! n])) [0 ..< length t]
      | _ \<Rightarrow> [])"

definition inherited_enum :: "prototypes \<Rightarrow> val \<Rightarrow> props" where
  "inherited_enum H v =
     (case kind_of v of
        None \<Rightarrow> []
      | Some kd \<Rightarrow>
          map (\<lambda>k. (k, get_prop H v k))
            (filter (\<lambda>k. \<not> has_own v k \<and>
                          (case inherited_prop H v k of None \<Rightarrow> False | Some (x, e) \<Rightarrow> e))
               (remdups (map fst (H kd)))))"

definition enum_props :: "prototypes \<Rightarrow> val \<Rightarrow> props option" where
  "enum_props H v =
     (case v of VHost n \<Rightarrow> None | _ \<Rightarrow> Some (own_enum v @ inherited_enum H v))"

text \<open>
  \<open>target[name] = copy\<close> for each enumerated property whose value is not \<open>undefined\<close>,
  on the new object with the properties \<open>target\<close>. jQuery passes over the name
  \<open>__proto__\<close> from version 3.4 on and assigns it before; the model does not say which.
\<close>

fun copy_into :: "prototypes \<Rightarrow> props \<Rightarrow> props \<Rightarrow> error + props" where
  "copy_into H target [] = Inr target"
| "copy_into H target ((name, copy) # rest) =
     (if copy = VUndef then copy_into H target rest
      else if name = ''__proto__'' \<or> (map_of target name = None \<and> map_of (H KObject) name \<noteq> None)
      then Inl Beyond
      else copy_into H (assign name copy target) rest)"

text \<open>
  \<open>$.extend({}, a, b)\<close> belongs to jQuery, not to this library. As jQuery documents it,
  without the leading \<open>true\<close> it copies the enumerable properties of each argument in
  turn into the new object, one level deep; arguments that are \<open>null\<close> or \<open>undefined\<close>
  are skipped and properties whose value is \<open>undefined\<close> are not copied. The second
  argument here is the identity of the new object.
\<close>

definition extend :: "prototypes \<Rightarrow> nat \<Rightarrow> val list \<Rightarrow> error + val" where
  "extend H n sources =
     (case those (map (enum_props H) sources) of
        None \<Rightarrow> Inl Beyond
      | Some entries \<Rightarrow>
          (case copy_into H [] (concat entries) of
             Inl e \<Rightarrow> Inl e
           | Inr target \<Rightarrow> Inr (VObj n target)))"

definition modelDefaults :: "ref \<Rightarrow> val \<Rightarrow> state \<Rightarrow> (error + val) \<times> state" where
  "modelDefaults r defaults s =
     (case modelGet r RUndefined (s\<lparr>next_id := Suc (next_id s)\<rparr>) of
        (Inl e, s1) \<Rightarrow> (Inl e, s1)
      | (Inr current, s1) \<Rightarrow>
          (case extend (inherited s1) (next_id s) [defaults, current] of
             Inl e \<Rightarrow> (Inl e, s1)
           | Inr merged \<Rightarrow>
               (case modelSet r merged RUndefined RUndefined s1 of
                  (Inl e, s2) \<Rightarrow> (Inl e, s2)
                | (Inr v, s2) \<Rightarrow> (Inr VUndef, s2))))"

section \<open>The binding registry\<close>

text \<open>
  \<open>$.modelPath(ref, context).toString()\<close>: the key of the registry. \<open>toString\<close> of
  \<open>undefined\<close> is a \<open>TypeError\<close>.
\<close>

definition binding_key :: "state \<Rightarrow> ref \<Rightarrow> ref \<Rightarrow> error + string" where
  "binding_key s r context =
     (case modelPath (modelOptions s) r context of
        Inl e \<Rightarrow> Inl e
      | Inr (RPath p) \<Rightarrow> Inr (path_toString p)
      | Inr other \<Rightarrow> Inl TypeError)"

text \<open>\<open>$.modelBind(ref, obj, context)\<close>; \<open>obj\<close> is \<open>None\<close> when it is omitted or falsy.\<close>

definition modelBind :: "ref \<Rightarrow> observer option \<Rightarrow> ref \<Rightarrow> state \<Rightarrow> (error + val) \<times> state" where
  "modelBind r obj context s =
     (case binding_key s r context of
        Inl e \<Rightarrow> (Inl e, s)
      | Inr key \<Rightarrow>
          (let bs = (case modelBinding s key of None \<Rightarrow> [] | Some l \<Rightarrow> l) in
           (Inr VUndef,
            s\<lparr>modelBinding := (modelBinding s)(key \<mapsto> bs @ [case obj of None \<Rightarrow> Target r | Some b \<Rightarrow> b])\<rparr>)))"

definition modelUnbind :: "ref \<Rightarrow> ref \<Rightarrow> state \<Rightarrow> (error + val) \<times> state" where
  "modelUnbind r context s =
     (case binding_key s r context of
        Inl e \<Rightarrow> (Inl e, s)
      | Inr key \<Rightarrow> (Inr VUndef, s\<lparr>modelBinding := (modelBinding s)(key := None)\<rparr>))"

definition modelGetBound :: "ref \<Rightarrow> ref \<Rightarrow> state \<Rightarrow> error + observer list option" where
  "modelGetBound r context s =
     (case binding_key s r context of
        Inl e \<Rightarrow> Inl e
      | Inr key \<Rightarrow> Inr (modelBinding s key))"

section \<open>Predicates on references, paths and states used in the properties\<close>

text \<open>
  The references that \<open>$.modelPath\<close> does not interpret: \<open>undefined\<close>, and the values
  that are not a string, an array, a path or an element (\<open>null\<close> apart, on which
  \<open>ref.isModelPath\<close> raises).
\<close>

definition unresolvable :: "ref \<Rightarrow> bool" where
  "unresolvable r =
     (case r of
        RUndefined \<Rightarrow> True | RBool b \<Rightarrow> True | RNum n \<Rightarrow> True | RNaN \<Rightarrow> True | RObj n \<Rightarrow> True
      | _ \<Rightarrow> False)"

text \<open>
  \<open>missing_from s p i x\<close>: the walk of \<open>p\<close> that stands at index \<open>i\<close> with \<open>parent = x\<close>
  meets, at \<open>i\<close> or later, before it raises and before it comes to a host object, a
  segment other than the last whose value \<open>this[path[i]]\<close> is \<open>undefined\<close>.
\<close>

function missing_from :: "state \<Rightarrow> path \<Rightarrow> nat \<Rightarrow> jsval \<Rightarrow> bool" where
  "missing_from s p i x =
     (if Suc i < length p \<and> \<not> is_host x
      then (this_get s (the_this x) (p ! i) = VUndef \<or>
            (case js_read s x (p ! i) of
               Inl e \<Rightarrow> False
             | Inr child \<Rightarrow> missing_from s p (Suc i) child))
      else False)"
  by pat_completeness auto
termination
  by (relation "measure (\<lambda>(s, p, i, x). length p - i)") auto

text \<open>
  \<open>absent_from s p i x\<close>: the same walk meets, at \<open>i\<close> or later and before it raises, a
  segment other than the last whose value \<open>this[path[i]]\<close> is \<open>undefined\<close>, or which
  it is to read on a host object, whose properties the model does not know.
\<close>

function absent_from :: "state \<Rightarrow> path \<Rightarrow> nat \<Rightarrow> jsval \<Rightarrow> bool" where
  "absent_from s p i x =
     (if Suc i < length p
      then (is_host x \<or> this_get s (the_this x) (p ! i) = VUndef \<or>
            (case js_read s x (p ! i) of
               Inl e \<Rightarrow> False
             | Inr child \<Rightarrow> absent_from s p (Suc i) child))
      else False)"
  by pat_completeness auto
termination
  by (relation "measure (\<lambda>(s, p, i, x). length p - i)") auto

definition is_array :: "val \<Rightarrow> bool" where
  "is_array v = (case v of VArr i xs ps \<Rightarrow> True | _ \<Rightarrow> False)"

text \<open>\<open>valid_loc m loc\<close>: the position \<open>loc\<close> leads through containers to a container of \<open>m\<close>.\<close>

fun valid_loc :: "val \<Rightarrow> path \<Rightarrow> bool" where
  "valid_loc m [] = is_container m"
| "valid_loc m (k # ks) = (is_container m \<and> valid_loc (own_prop m k) ks)"

text \<open>The value of \<open>parent\<close> when the walk has followed \<open>loc\<close> through containers.\<close>

definition locate :: "state \<Rightarrow> path \<Rightarrow> jsval" where
  "locate s loc =
     (if is_container (get_at (model s) loc) then Located loc else Detached (get_at (model s) loc))"

text \<open>
  \<open>settable m p i\<close>: from index \<open>i\<close> on, the path \<open>p\<close> is not empty and runs in the store
  \<open>m\<close> through containers as far as it exists: the value of a segment other than the last
  is \<open>undefined\<close> or a container, and the last segment is not the \<open>length\<close> of an array.
\<close>

function settable :: "val \<Rightarrow> path \<Rightarrow> nat \<Rightarrow> bool" where
  "settable m p i =
     (is_container (get_at m (take i p)) \<and>
      (if Suc i < length p
       then (own_prop (get_at m (take i p)) (p ! i) = VUndef \<or> settable m p (Suc i))
       else i < length p \<and> \<not> (is_array (get_at m (take i p)) \<and> p ! i = ''length'')))"
  by pat_completeness auto
termination
  by (relation "measure (\<lambda>(m, p, i). length p - i)") auto

text \<open>\<open>walkable m p\<close>: every segment of \<open>p\<close> is read on a container of \<open>m\<close>.\<close>

definition walkable :: "val \<Rightarrow> path \<Rightarrow> bool" where
  "walkable m p = (p = [] \<or> valid_loc m (butlast p))"

text \<open>
  \<open>clean s p\<close>: no segment of \<open>p\<close> is the name of a property that objects or arrays
  inherit in the host of \<open>s\<close>. On such a path a container has a property exactly when
  it owns it.
\<close>

definition clean :: "state \<Rightarrow> path \<Rightarrow> bool" where
  "clean s p =
     list_all (\<lambda>k. map_of (inherited s KObject) k = None \<and> map_of (inherited s KArray) k = None) p"

text \<open>The observers registered for a path, and what they receive at index \<open>i\<close> of a walk of \<open>p\<close>.\<close>

definition bindings_at :: "state \<Rightarrow> path \<Rightarrow> observer list" where
  "bindings_at s q = (case modelBinding s (path_toString q) of None \<Rightarrow> [] | Some bs \<Rightarrow> bs)"

definition deliveries :: "ref \<Rightarrow> state \<Rightarrow> path \<Rightarrow> nat \<Rightarrow> event list" where
  "deliveries src s p i =
     concat (map (notify src (TNode (take i p)) p i s) (bindings_at s (take (Suc i) p)))"

text \<open>The same JavaScript value: the same object, or the same primitive value.\<close>

definition same_value :: "val \<Rightarrow> val \<Rightarrow> bool" where
  "same_value a b = (strict_eq a b \<or> (a = VNaN \<and> b = VNaN))"

text \<open>
  \<open>materialized p s s1\<close>: what a walk of \<open>p\<close> that creates containers makes of the state
  \<open>s\<close>. The segments of \<open>p\<close> are then all read on containers, the value at \<open>p\<close> is what it
  was, and nothing but the store and the counter of object identities has changed. A
  container that was there is of the kind it was, and a container that was not there
  is an array exactly when the segment after it is numeric and \<open>createArrays\<close> is set.
\<close>

definition materialized :: "path \<Rightarrow> state \<Rightarrow> state \<Rightarrow> bool" where
  "materialized p s s1 =
     (global s1 = global s \<and> inherited s1 = inherited s \<and> modelBinding s1 = modelBinding s \<and>
      modelOptions s1 = modelOptions s \<and> events s1 = events s \<and>
      next_id s \<le> next_id s1 \<and>
      valid_loc (model s1) (butlast p) \<and>
      \<not> (is_array (get_at (model s1) (butlast p)) \<and> last p = ''length'') \<and>
      get_at (model s1) p = get_at (model s) p \<and>
      (\<forall>j<length p. is_container (get_at (model s) (take j p)) \<longrightarrow>
         is_array (get_at (model s1) (take j p)) = is_array (get_at (model s) (take j p))) \<and>
      (\<forall>j. Suc j < length p \<and> get_at (model s) (take (Suc j) p) = VUndef \<longrightarrow>
         is_array (get_at (model s1) (take (Suc j) p))
           = (\<not> isNaN (p ! Suc j) \<and> createArrays (modelOptions s))))"

text \<open>
  \<open>reached src b\<close>: the observer \<open>b\<close> is a function, or it is not the source \<open>src\<close> of
  the write (\<open>b !== src\<close>).
\<close>

definition reached :: "ref \<Rightarrow> observer \<Rightarrow> bool" where
  "reached src b = (case b of Callback f \<Rightarrow> True | Target t \<Rightarrow> t \<noteq> src \<or> t = RNaN)"

text \<open>The observer that a delivery reaches, and the \<open>data\<close> object it carries.\<close>

definition observer_of :: "event \<Rightarrow> observer" where
  "observer_of e = (case e of Called f d \<Rightarrow> Callback f | Update t d \<Rightarrow> Target t)"

definition data_of :: "event \<Rightarrow> change" where
  "data_of e = (case e of Called f d \<Rightarrow> d | Update t d \<Rightarrow> d)"

text \<open>
  A value of the store that is neither an array nor a string: all it owns is its
  named properties.
\<close>

definition plain :: "val \<Rightarrow> bool" where
  "plain v = (case v of VArr i xs ps \<Rightarrow> False | VStr t \<Rightarrow> False | VHost n \<Rightarrow> False | _ \<Rightarrow> True)"

text \<open>
  \<open>mergeable H v\<close>: \<open>v\<close> is plain and none of its own properties has the name of a
  property that objects inherit in the host \<open>H\<close>, or the name \<open>__proto__\<close>.
\<close>

definition mergeable :: "prototypes \<Rightarrow> val \<Rightarrow> bool" where
  "mergeable H v =
     (plain v \<and>
      list_all (\<lambda>k. k \<noteq> ''__proto__'' \<and> map_of (H KObject) k = None) (map fst (own_enum v)))"

text \<open>\<open>no_enumerable H\<close>: in the host \<open>H\<close> no inherited property is enumerable.\<close>

definition no_enumerable :: "prototypes \<Rightarrow> bool" where
  "no_enumerable H =
     list_all (\<lambda>kd. list_all (\<lambda>e. \<not> snd (snd e)) (H kd))
       [KObject, KArray, KString, KNumber, KBoolean]"

text \<open>
  \<open>fresh_at s p\<close>: the object stored at \<open>p\<close>, if there is one, is not the object that
  will be created next.
\<close>

definition fresh_at :: "state \<Rightarrow> path \<Rightarrow> bool" where
  "fresh_at s p = (case get_at (model s) p of VObj i ps \<Rightarrow> i \<noteq> next_id s | _ \<Rightarrow> True)"


section \<open>Path resolution: properties\<close>

lemma concat_onto_error [simp]: "concat_onto p (Inl e) = Inl e"
  by (simp add: concat_onto_def)

lemma relative_global_overflows:
  assumes "globalContext opts = RStr t \<or> globalContext opts = RElem e own ancestors"
    and "t = elem_ref own ancestors" and "hd (split_slash t) \<noteq> []"
  shows "modelPath_fuel m opts (globalContext opts) RUndefined = Inl RangeError"
proof (induction m)
  case 0
  show ?case by simp
next
  case (Suc m)
  from assms(1) show ?case
  proof
    assume g: "globalContext opts = RStr t"
    have "modelPath_fuel (Suc m) opts (RStr t) RUndefined
            = concat_onto (split_slash t) (modelPath_fuel m opts (globalContext opts) RUndefined)"
      using assms(3) by (simp add: Let_def)
    then show ?thesis using Suc g by simp
  next
    assume g: "globalContext opts = RElem e own ancestors"
    have "modelPath_fuel (Suc m) opts (RElem e own ancestors) RUndefined
            = concat_onto (split_slash t) (modelPath_fuel m opts (globalContext opts) RUndefined)"
      using assms(2,3) by (simp add: Let_def)
    then show ?thesis using Suc g by simp
  qed
qed

lemma modelPath_fuel_global:
  "modelPath_fuel (Suc m) opts (globalContext opts) RUndefined
     = modelPath_fuel 1 opts (globalContext opts) RUndefined"
proof (cases "globalContext opts")
  case (RStr s)
  show ?thesis
  proof (cases "hd (split_slash s) = []")
    case True
    with RStr show ?thesis by (simp add: Let_def)
  next
    case False
    have "modelPath_fuel k opts (globalContext opts) RUndefined = Inl RangeError" for k
      using relative_global_overflows [of opts s _ None "[s]" k] RStr False
      by (simp add: elem_ref_def)
    then show ?thesis by simp
  qed
next
  case (RElem e own ancestors)
  show ?thesis
  proof (cases "hd (split_slash (elem_ref own ancestors)) = []")
    case True
    with RElem show ?thesis by (simp add: Let_def)
  next
    case False
    have "modelPath_fuel k opts (globalContext opts) RUndefined = Inl RangeError" for k
      using relative_global_overflows [of opts _ e own ancestors k] RElem False by simp
    then show ?thesis by simp
  qed
qed simp_all

lemma modelPath_fuel_second:
  "modelPath_fuel (Suc (Suc m)) opts x RUndefined = modelPath_fuel 2 opts x RUndefined"
  using modelPath_fuel_global [of m opts]
  by (cases x) (simp_all add: Let_def numeral_2_eq_2)

lemma modelPath_fuel_enough:
  assumes "3 \<le> n"
  shows "modelPath_fuel n opts r c = modelPath_fuel 3 opts r c"
proof -
  from assms obtain m where n: "n = Suc (Suc (Suc m))"
    by (metis Suc_le_D numeral_3_eq_3 Suc_le_mono)
  have "modelPath_fuel (Suc (Suc m)) opts x RUndefined = modelPath_fuel (Suc (Suc 0)) opts x RUndefined" for x
    using modelPath_fuel_second [of m opts x] by (simp add: numeral_2_eq_2)
  then show ?thesis
    unfolding n numeral_3_eq_3 by (cases r) (simp_all add: Let_def)
qed

lemma concat_onto_shape:
  "concat_onto p res = Inr x \<Longrightarrow> \<exists>q. x = RPath q"
  by (auto simp: concat_onto_def split: sum.splits ref.splits)

lemma modelPath_fuel_shape:
  "modelPath_fuel n opts r c = Inr x \<Longrightarrow> x = RUndefined \<or> (\<exists>q. x = RPath q)"
  by (cases n; cases r) (auto simp: Let_def split: if_splits dest: concat_onto_shape)

lemma modelPath_shape:
  "modelPath opts r c = Inr x \<Longrightarrow> x = RUndefined \<or> (\<exists>q. x = RPath q)"
  unfolding modelPath_def by (rule modelPath_fuel_shape)

lemma modelPath_parsed [simp]:
  "modelPath opts RUndefined c = Inr RUndefined"
  "modelPath opts (RPath p) c = Inr (RPath p)"
  by (simp_all add: modelPath_def numeral_3_eq_3)

text \<open>
  C10. Parsing is idempotent: \<open>$.modelPath\<close> applied to what \<open>$.modelPath\<close> returned
  gives the same result whatever the second context and the options then are. When the
  first call raises there is no path to parse again and the exception is the outcome
  of the composition.
\<close>

theorem modelPath_idempotent:
  "(case modelPath opts1 r c1 of Inl e \<Rightarrow> Inl e | Inr p \<Rightarrow> modelPath opts2 p c2)
     = modelPath opts1 r c1"
proof (cases "modelPath opts1 r c1")
  case (Inl e)
  then show ?thesis by simp
next
  case (Inr x)
  with modelPath_shape [OF Inr] show ?thesis by auto
qed

section \<open>The walk: delete and get\<close>

declare walk_from.simps [simp del] absent_from.simps [simp del] missing_from.simps [simp del]

lemma last_index_conv: "(i < n - Suc 0) = (Suc i < n)" "(i < n - 1) = (Suc i < n)"
  by auto

lemma walk_from_end: "length p \<le> i \<Longrightarrow> walk_from cb p i x (a, s) = (Inr x, a, s)"
  by (subst walk_from.simps) simp

lemma walk_delete_missing:
  "missing_from s p i x \<Longrightarrow> \<exists>c'. walk_from (value_visit 2) p i x (c, s) = (Inl ReferenceError, c', s)"
proof (induction s p i x arbitrary: c rule: missing_from.induct)
  case (1 s p i x)
  from "1.prems" have lt: "Suc i < length p" and nh: "\<not> is_host x"
    by (subst (asm) missing_from.simps, simp split: if_splits)+
  show ?case
  proof (cases "this_get s (the_this x) (p ! i) = VUndef")
    case True
    then show ?thesis using lt nh
      by (subst walk_from.simps) (simp add: value_visit_def Let_def last_index_conv)
  next
    case False
    with "1.prems" lt nh obtain child where rd: "js_read s x (p ! i) = Inr child"
      and ab: "missing_from s p (Suc i) child"
      by (subst (asm) missing_from.simps) (auto split: sum.splits)
    from "1.IH" [OF conjI [OF lt nh] rd ab] obtain c' where
      "walk_from (value_visit 2) p (Suc i) child ((Some (the_this x), Some (p ! i)), s)
         = (Inl ReferenceError, c', s)" by blast
    then show ?thesis using lt nh False rd
      by (subst walk_from.simps) (simp add: value_visit_def Let_def)
  qed
qed

lemma walk_get_present:
  "\<not> absent_from s p i x \<Longrightarrow> snd (snd (walk_from (value_visit 0) p i x (c, s))) = s"
proof (induction "length p - i" arbitrary: i x c)
  case 0
  then show ?case by (simp add: walk_from_end)
next
  case (Suc n)
  then have lt: "i < length p" by simp
  have vis: "value_visit 0 (the_this x) p i (c, s) = (Inr (), (Some (the_this x), Some (p ! i)), s)"
    using Suc.prems lt
    by (subst (asm) absent_from.simps) (auto simp: value_visit_def Let_def last_index_conv)
  show ?case
  proof (cases "js_read s x (p ! i)")
    case (Inl e)
    then show ?thesis using lt vis by (subst walk_from.simps) simp
  next
    case (Inr child)
    have "\<not> absent_from s p (Suc i) child"
    proof (cases "Suc i < length p")
      case True
      with Suc.prems Inr show ?thesis
        by (subst (asm) absent_from.simps) simp
    next
      case False
      then show ?thesis by (subst absent_from.simps) simp
    qed
    moreover have "n = length p - Suc i" using Suc.hyps by simp
    ultimately have "snd (snd (walk_from (value_visit 0) p (Suc i) child
                       ((Some (the_this x), Some (p ! i)), s))) = s"
      using Suc.hyps(1) by blast
    then show ?thesis using lt vis Inr by (subst walk_from.simps) simp
  qed
qed

text \<open>
  C1 (as amended). A reference that \<open>$.modelPath\<close> does not interpret resolves to
  \<open>undefined\<close> without an exception, and \<open>$.modelGet\<close> and \<open>$.modelTrigger\<close> called with
  it return \<open>undefined\<close> and leave the whole state, store and registry included, as it
  was.
\<close>

theorem unresolved_reference_noop:
  "unresolvable r \<Longrightarrow>
     modelPath (modelOptions s) r c = Inr RUndefined \<and>
     modelGet r c s = (Inr VUndef, s) \<and>
     modelTrigger r c ev src s = (Inr VUndef, s)"
  by (cases r)
     (simp_all add: unresolvable_def modelPath_def numeral_3_eq_3 modelGet_def modelValue_def
        modelWalk_def modelTrigger_def deref_def)

theorem unresolved_reference_noop_witness:
  "unresolvable (RNum 5) \<and>
     modelPath (modelOptions init) (RNum 5) RUndefined = Inr RUndefined \<and>
     modelGet (RNum 5) RUndefined init = (Inr VUndef, init) \<and>
     modelTrigger (RNum 5) RUndefined ''set'' RUndefined init = (Inr VUndef, init)"
proof -
  have h: "unresolvable (RNum 5)" by (simp add: unresolvable_def)
  from unresolved_reference_noop [OF h, of init RUndefined "''set''" RUndefined] h
  show ?thesis by simp
qed

text \<open>
  C1 as stated fails. An element without any reference attribute in its scope chain
  resolves to the empty path, not to \<open>undefined\<close>; and with the number 5, which does
  resolve to \<open>undefined\<close>, \<open>$.modelSet\<close>, \<open>$.modelDelete\<close>, \<open>$.modelBind\<close> and
  \<open>$.modelUnbind\<close> raise a \<open>TypeError\<close>.
\<close>

theorem unresolved_reference_counterexample:
  "modelPath (modelOptions init) (RElem 0 None []) RUndefined = Inr (RPath []) \<and>
   modelPath (modelOptions init) (RNum 5) RUndefined = Inr RUndefined \<and>
   fst (modelSet (RNum 5) (VStr ''x'') RUndefined RUndefined init) = Inl TypeError \<and>
   fst (modelDelete (RNum 5) RUndefined init) = Inl TypeError \<and>
   fst (modelBind (RNum 5) None RUndefined init) = Inl TypeError \<and>
   fst (modelUnbind (RNum 5) RUndefined init) = Inl TypeError"
  by code_simp

text \<open>
  C7. When the walk of \<open>$.modelDelete\<close> meets a segment other than the last whose value,
  own or inherited, is \<open>undefined\<close>, the call returns \<open>undefined\<close> and the state is what
  it was: no container has been created, nothing is removed, and nothing is delivered.
\<close>

theorem delete_absent_noop:
  assumes "modelPath (modelOptions s) r c = Inr (RPath p)"
    and "missing_from s p 0 (root s)"
  shows "modelDelete r c s = (Inr VUndef, s)"
proof -
  from walk_delete_missing [OF assms(2)] obtain c' where
    "walk_from (value_visit 2) p 0 (root s) ((None, None), s) = (Inl ReferenceError, c', s)"
    by blast
  then show ?thesis using assms(1)
    by (simp add: modelDelete_def modelValue_def modelWalk_def)
qed

theorem delete_absent_noop_witness:
  "modelPath (modelOptions init) (RStr ''/a/b/c'') RUndefined = Inr (RPath [''a'', ''b'', ''c'']) \<and>
   missing_from init [''a'', ''b'', ''c''] 0 (root init) \<and>
   modelDelete (RStr ''/a/b/c'') RUndefined init = (Inr VUndef, init)"
proof -
  have h1: "modelPath (modelOptions init) (RStr ''/a/b/c'') RUndefined
              = Inr (RPath [''a'', ''b'', ''c''])" by code_simp
  have h2: "missing_from init [''a'', ''b'', ''c''] 0 (root init)" by code_simp
  from delete_absent_noop [OF h1 h2] h1 h2 show ?thesis by simp
qed

text \<open>
  An inherited value is not \<open>undefined\<close>: on the empty store the walk of
  \<open>/constructor/x\<close> reads the function \<open>Object\<close> at its first segment, and the
  hypothesis of C7 does not hold.
\<close>

lemma inherited_segment_not_missing:
  "\<not> missing_from init [''constructor'', ''x''] 0 (root init) \<and>
   \<not> missing_from init [''__proto__'', ''x''] 0 (root init) \<and>
   missing_from init [''x'', ''constructor''] 0 (root init)"
  by code_simp

text \<open>
  C2 (as amended). \<open>$.modelGet\<close> leaves the whole state unchanged when its walk meets no
  segment other than the last whose value is \<open>undefined\<close>, and none that it is to read
  on a host object.
\<close>

theorem get_present_unchanged:
  assumes "modelPath (modelOptions s) r c = Inr (RPath p)"
    and "\<not> absent_from s p 0 (root s)"
  shows "snd (modelGet r c s) = s"
proof -
  have "snd (snd (walk_from (value_visit 0) p 0 (root s) ((None, None), s))) = s"
    by (rule walk_get_present [OF assms(2)])
  then show ?thesis using assms(1)
    by (auto simp: modelGet_def modelValue_def modelWalk_def split: prod.splits sum.splits)
qed

theorem get_present_unchanged_witness:
  "modelPath (modelOptions (init\<lparr>model := VObj 0 [(''a'', VObj 1 [(''b'', VNum 1)])]\<rparr>))
      (RStr ''/a/b/c'') RUndefined = Inr (RPath [''a'', ''b'', ''c'']) \<and>
   \<not> absent_from (init\<lparr>model := VObj 0 [(''a'', VObj 1 [(''b'', VNum 1)])]\<rparr>)
        [''a'', ''b'', ''c''] 0 (root (init\<lparr>model := VObj 0 [(''a'', VObj 1 [(''b'', VNum 1)])]\<rparr>)) \<and>
   snd (modelGet (RStr ''/a/b/c'') RUndefined (init\<lparr>model := VObj 0 [(''a'', VObj 1 [(''b'', VNum 1)])]\<rparr>))
     = init\<lparr>model := VObj 0 [(''a'', VObj 1 [(''b'', VNum 1)])]\<rparr>"
proof -
  let ?s = "init\<lparr>model := VObj 0 [(''a'', VObj 1 [(''b'', VNum 1)])]\<rparr>"
  have h1: "modelPath (modelOptions ?s) (RStr ''/a/b/c'') RUndefined
              = Inr (RPath [''a'', ''b'', ''c''])" by code_simp
  have h2: "\<not> absent_from ?s [''a'', ''b'', ''c''] 0 (root ?s)" by code_simp
  from get_present_unchanged [OF h1 h2] h1 h2 show ?thesis by simp
qed

text \<open>
  C2 as stated fails: on the empty store, \<open>$.modelGet('/a/b')\<close> returns \<open>undefined\<close> and
  leaves the object it created at \<open>/a\<close> in the store.
\<close>

theorem get_materializes_counterexample:
  "fst (modelGet (RStr ''/a/b'') RUndefined init) = Inr VUndef \<and>
   model init = VObj 0 [] \<and>
   model (snd (modelGet (RStr ''/a/b'') RUndefined init)) = VObj 0 [(''a'', VObj 1 [])]"
  by code_simp

section \<open>Properties and positions\<close>

declare settable.simps [simp del]

lemma lookup_assign [simp]: "lookup (assign k v ps) k = v"
  by (induction ps) (auto simp: lookup_def)

lemma get_at_Nil [simp]: "get_at m [] = m"
  by (simp add: get_at_def)

lemma get_at_Cons [simp]: "get_at m (k # ks) = get_at (own_prop m k) ks"
  by (simp add: get_at_def)

lemma get_at_append: "get_at m (a @ b) = get_at (get_at m a) b"
  by (simp add: get_at_def)

lemma get_at_snoc: "get_at m (loc @ [k]) = own_prop (get_at m loc) k"
  by (simp add: get_at_def)

lemma get_at_undef [simp]: "get_at VUndef ks = VUndef"
  by (induction ks) simp_all

lemma isNaN_length: "isNaN ''length''"
  by code_simp

lemma array_index_length [simp]: "array_index ''length'' = None"
  by code_simp

lemma is_container_simps [simp]:
  "is_container (VObj i ps)" "is_container (VArr i xs qs)"
  "\<not> is_container VUndef" "\<not> is_container VNull" "\<not> is_container (VBool b)"
  "\<not> is_container (VNum n)" "\<not> is_container VNaN" "\<not> is_container (VStr t)"
  "\<not> is_container (VHost h)"
  by (simp_all add: is_container_def)

lemma is_array_simps [simp]:
  "is_array (VArr i xs qs)" "\<not> is_array (VObj i ps)"
  "\<not> is_array VUndef" "\<not> is_array VNull" "\<not> is_array (VBool b)"
  "\<not> is_array (VNum n)" "\<not> is_array VNaN" "\<not> is_array (VStr t)"
  "\<not> is_array (VHost h)"
  by (simp_all add: is_array_def)

text \<open>A write is read back, except for the \<open>length\<close> of an array.\<close>

lemma get_set_prop:
  assumes "is_container m" and "\<not> (is_array m \<and> k = ''length'')"
  shows "\<exists>m'. own_set m k v = Inr m' \<and> is_container m' \<and> own_prop m' k = v
             \<and> is_array m' = is_array m"
proof (cases m)
  case (VArr i xs ps)
  show ?thesis
  proof (cases "array_index k")
    case None
    with VArr assms show ?thesis by simp
  next
    case (Some n)
    have "n < length ((xs @ replicate (Suc n - length xs) VUndef)[n := v])" by simp
    with VArr Some show ?thesis by simp
  qed
qed (use assms in simp_all)

lemma container_child_not_length:
  "is_container (own_prop m k) \<Longrightarrow> \<not> (is_array m \<and> k = ''length'')"
  by (cases m) auto

lemma undef_child_not_length:
  "own_prop m k = VUndef \<Longrightarrow> \<not> (is_array m \<and> k = ''length'')"
  by (cases m) auto

lemma put_child_get:
  assumes "is_container m" and "\<not> (is_array m \<and> k = ''length'')"
  shows "own_prop (put_child m k c) k = c" and "is_container (put_child m k c)"
    and "is_array (put_child m k c) = is_array m"
  using get_set_prop [OF assms, of c] by (auto simp: put_child_def)

lemma valid_loc_root: "valid_loc m loc \<Longrightarrow> is_container m"
  by (cases loc) simp_all

lemma valid_loc_snoc:
  "valid_loc m (loc @ [k]) = (valid_loc m loc \<and> is_container (own_prop (get_at m loc) k))"
  by (induction loc arbitrary: m) (auto dest: valid_loc_root)

lemma valid_loc_end: "valid_loc m loc \<Longrightarrow> is_container (get_at m loc)"
  by (induction loc arbitrary: m) auto

lemma get_put_at:
  "valid_loc m loc \<Longrightarrow> get_at (put_at m loc v) loc = v"
proof (induction loc arbitrary: m)
  case Nil
  show ?case by simp
next
  case (Cons k ks)
  then have c: "is_container m" and v: "valid_loc (own_prop m k) ks" by simp_all
  from v have "is_container (own_prop m k)" by (rule valid_loc_root)
  then have nl: "\<not> (is_array m \<and> k = ''length'')" by (rule container_child_not_length)
  show ?case using Cons.IH [OF v] put_child_get(1) [OF c nl] by simp
qed

lemma valid_put_at:
  "valid_loc m loc \<Longrightarrow> is_container v \<Longrightarrow> valid_loc (put_at m loc v) loc"
proof (induction loc arbitrary: m)
  case Nil
  then show ?case by simp
next
  case (Cons k ks)
  then have c: "is_container m" and vl: "valid_loc (own_prop m k) ks" by simp_all
  from vl have "is_container (own_prop m k)" by (rule valid_loc_root)
  then have nl: "\<not> (is_array m \<and> k = ''length'')" by (rule container_child_not_length)
  show ?case using Cons.IH [OF vl Cons.prems(2)] put_child_get [OF c nl] by simp
qed

text \<open>Replacing a container by one of its kind leaves the kinds along the position.\<close>

lemma kind_put_at:
  "valid_loc m loc \<Longrightarrow> is_container v \<Longrightarrow> is_array v = is_array (get_at m loc) \<Longrightarrow>
     is_array (get_at (put_at m loc v) (take j loc)) = is_array (get_at m (take j loc))"
proof (induction loc arbitrary: m j)
  case Nil
  then show ?case by simp
next
  case (Cons k ks)
  then have c: "is_container m" and vl: "valid_loc (own_prop m k) ks" by simp_all
  from vl have "is_container (own_prop m k)" by (rule valid_loc_root)
  then have nl: "\<not> (is_array m \<and> k = ''length'')" by (rule container_child_not_length)
  show ?case
  proof (cases j)
    case 0
    then show ?thesis using put_child_get(3) [OF c nl] by simp
  next
    case (Suc j')
    then show ?thesis
      using Cons.IH [OF vl Cons.prems(2), of j'] Cons.prems(3) put_child_get(1) [OF c nl] by simp
  qed
qed

text \<open>Below a position that holds \<open>undefined\<close> there is \<open>undefined\<close>.\<close>

lemma get_at_deeper:
  assumes "get_at m (take a p) = VUndef" and "a \<le> b"
  shows "get_at m (take b p) = VUndef"
proof -
  from assms(2) have "take a (take b p) = take a p" by (simp add: min.absorb1)
  then have "take a p @ drop a (take b p) = take b p"
    using append_take_drop_id [of a "take b p"] by simp
  then have "get_at m (take b p) = get_at (get_at m (take a p)) (drop a (take b p))"
    using get_at_append [of m "take a p" "drop a (take b p)"] by simp
  then show ?thesis using assms(1) by simp
qed

lemma get_at_below_fresh:
  assumes "own_prop (get_at m (take a p)) (p ! a) = VUndef" and "a < length p" and "a < b"
  shows "get_at m (take b p) = VUndef"
proof -
  from assms(1,2) have "get_at m (take (Suc a) p) = VUndef"
    by (simp add: take_Suc_conv_app_nth get_at_snoc)
  moreover from assms(3) have "Suc a \<le> b" by simp
  ultimately show ?thesis by (rule get_at_deeper)
qed

section \<open>Own and inherited properties\<close>

lemma own_prop_not_own: "\<not> has_own v k \<Longrightarrow> own_prop v k = VUndef"
  by (cases v) (auto simp: lookup_def split: option.splits)

lemma own_container_has_own: "is_container (own_prop v k) \<Longrightarrow> has_own v k"
  by (cases "has_own v k") (simp_all add: own_prop_not_own)

lemma get_prop_own: "has_own v k \<Longrightarrow> get_prop H v k = own_prop v k"
  by (simp add: get_prop_def)

lemma get_prop_not_inherited: "inherited_prop H v k = None \<Longrightarrow> get_prop H v k = own_prop v k"
  by (simp add: get_prop_def own_prop_not_own)

lemma set_prop_not_inherited: "inherited_prop H v k = None \<Longrightarrow> set_prop H v k x = own_set v k x"
  by (simp add: set_prop_def)

lemma clean_nth:
  assumes "clean s p" and "i < length p" and "is_container v"
  shows "inherited_prop (inherited s) v (p ! i) = None"
proof -
  from assms(1,2) have "map_of (inherited s KObject) (p ! i) = None"
    and "map_of (inherited s KArray) (p ! i) = None"
    by (simp_all add: clean_def list_all_length)
  then show ?thesis using assms(3)
    by (cases v) (simp_all add: inherited_prop_def kind_of_def)
qed

lemma clean_last:
  assumes "clean s p" and "p \<noteq> []" and "is_container v"
  shows "inherited_prop (inherited s) v (last p) = None"
  using clean_nth [OF assms(1) _ assms(3), of "length p - 1"] assms(2)
  by (simp add: last_conv_nth)

lemma clean_model [simp]: "clean (s\<lparr>model := m\<rparr>) p = clean s p"
  by (simp add: clean_def)

lemma clean_next_id [simp]: "clean (s\<lparr>next_id := n\<rparr>) p = clean s p"
  by (simp add: clean_def)

lemma clean_events [simp]: "clean (s\<lparr>events := e\<rparr>) p = clean s p"
  by (simp add: clean_def)

lemma this_get_node: "this_get s (TNode loc) k = get_prop (inherited s) (get_at (model s) loc) k"
  by (simp add: this_get_def)

lemma this_get_clean:
  assumes "clean s p" and "i < length p" and "is_container (get_at (model s) loc)"
  shows "this_get s (TNode loc) (p ! i) = own_prop (get_at (model s) loc) (p ! i)"
  by (simp add: this_get_node get_prop_not_inherited clean_nth [OF assms])

lemma this_set_clean:
  assumes "clean s p" and "i < length p" and "is_container (get_at (model s) loc)"
  shows "this_set (TNode loc) (p ! i) v s =
           (case own_set (get_at (model s) loc) (p ! i) v of
              Inl e \<Rightarrow> (Inl e, s)
            | Inr node \<Rightarrow> (Inr (TNode loc), s\<lparr>model := put_at (model s) loc node\<rparr>))"
  by (simp add: this_set_def set_prop_not_inherited clean_nth [OF assms])

section \<open>The dispatcher\<close>

lemma valid_loc_take: "valid_loc m loc \<Longrightarrow> is_container (get_at m (take j loc))"
proof (induction loc arbitrary: m j)
  case Nil
  then show ?case by simp
next
  case (Cons k ks)
  then show ?case by (cases j) simp_all
qed

lemma valid_butlast_containers:
  assumes "valid_loc m (butlast p)"
  shows "\<forall>j<length p. is_container (get_at m (take j p))"
proof (intro allI impI)
  fix j assume "j < length p"
  then have "take j p = take j (butlast p)" by (simp add: take_butlast)
  then show "is_container (get_at m (take j p))" using valid_loc_take [OF assms] by simp
qed

lemma walkable_containers:
  assumes "walkable m p" and "j < length p"
  shows "is_container (get_at m (take j p))"
proof -
  from assms have "valid_loc m (butlast p)" by (auto simp: walkable_def)
  then have "is_container (get_at m (take j (butlast p)))" by (rule valid_loc_take)
  then show ?thesis using assms(2) by (simp add: take_butlast)
qed

lemma this_get_events [simp]: "this_get (s\<lparr>events := e\<rparr>) th k = this_get s th k"
  by (cases th) (simp_all add: this_get_def split: option.splits)

lemma receiver_of_events [simp]: "receiver_of (s\<lparr>events := e\<rparr>) th = receiver_of s th"
  by (cases th) (simp_all add: receiver_of_def)

lemma notify_events [simp]: "notify src th p i (s\<lparr>events := e\<rparr>) = notify src th p i s"
  by (rule ext) (simp add: notify_def)

lemma deliveries_events [simp]: "deliveries src (s\<lparr>events := e\<rparr>) p = deliveries src s p"
  by (rule ext) (simp add: deliveries_def bindings_at_def)

lemma locate_events [simp]: "locate (s\<lparr>events := e\<rparr>) loc = locate s loc"
  by (simp add: locate_def)

lemma js_read_container:
  "is_container (get_at (model s) (loc @ [k])) \<Longrightarrow>
     js_read s (Located loc) k = Inr (Located (loc @ [k]))"
  by (simp add: js_read_def get_at_snoc Let_def)

lemma js_read_not_inherited:
  "inherited_prop (inherited s) (get_at (model s) loc) k = None \<Longrightarrow>
     js_read s (Located loc) k = Inr (locate s (loc @ [k]))"
  by (simp add: js_read_def locate_def get_at_snoc Let_def get_prop_not_inherited)

lemma js_read_returns: "\<exists>x. js_read s (Located loc) k = Inr x"
  by (simp add: js_read_def Let_def)

lemma is_host_Located [simp]: "\<not> is_host (Located loc)"
  by (simp add: is_host_def)

lemma root_locate: "root s = locate s []"
  by (simp add: root_def locate_def)

lemma trigger_visit_node:
  "trigger_visit src (TNode (take i p)) p i ((), s)
     = (Inr (), (), s\<lparr>events := events s @ deliveries src s p i\<rparr>)"
  by (simp add: trigger_visit_def deliveries_def bindings_at_def split: option.splits)

text \<open>
  The walk of the dispatcher from index \<open>i\<close> on, when the segments are all read on
  containers of the store.
\<close>

lemma trigger_walk:
  assumes "\<forall>j<length p. is_container (get_at (model s) (take j p))" and "i < length p"
  shows "\<exists>x. walk_from (trigger_visit src) p i (Located (take i p)) ((), s)
           = (Inr x, (),
              s\<lparr>events := events s @ concat (map (deliveries src s p) [i ..< length p])\<rparr>)"
  using assms
proof (induction "length p - Suc i" arbitrary: i s)
  case 0
  then have e: "Suc i = length p" by simp
  let ?s' = "s\<lparr>events := events s @ deliveries src s p i\<rparr>"
  from js_read_returns obtain x where rd: "js_read ?s' (Located (take i p)) (p ! i) = Inr x"
    by blast
  have "walk_from (trigger_visit src) p i (Located (take i p)) ((), s)
          = walk_from (trigger_visit src) p (Suc i) x ((), ?s')"
    using "0.prems"(2) rd by (subst walk_from.simps) (simp add: the_this_def trigger_visit_node)
  also have "\<dots> = (Inr x, (), ?s')" using e by (simp add: walk_from_end)
  finally show ?case using e "0.prems"(2) by (simp add: upt_conv_Cons)
next
  case (Suc n)
  then have lt: "Suc i < length p" by simp
  then have lt0: "i < length p" by simp
  let ?s' = "s\<lparr>events := events s @ deliveries src s p i\<rparr>"
  from Suc.prems(1) lt have "is_container (get_at (model s) (take (Suc i) p))" by blast
  then have "is_container (get_at (model ?s') (take i p @ [p ! i]))"
    using take_Suc_conv_app_nth [OF lt0] by simp
  then have rd: "js_read ?s' (Located (take i p)) (p ! i) = Inr (Located (take (Suc i) p))"
    using take_Suc_conv_app_nth [OF lt0] js_read_container [of ?s' "take i p" "p ! i"] by simp
  have "n = length p - Suc (Suc i)" using Suc.hyps(2) by simp
  moreover have "\<forall>j<length p. is_container (get_at (model ?s') (take j p))"
    using Suc.prems(1) by simp
  ultimately obtain x where IH: "walk_from (trigger_visit src) p (Suc i) (Located (take (Suc i) p)) ((), ?s')
      = (Inr x, (),
         ?s'\<lparr>events := events ?s' @ concat (map (deliveries src ?s' p) [Suc i ..< length p])\<rparr>)"
    using Suc.hyps(1) [of "Suc i" ?s'] lt by blast
  have "walk_from (trigger_visit src) p i (Located (take i p)) ((), s)
          = walk_from (trigger_visit src) p (Suc i) (Located (take (Suc i) p)) ((), ?s')"
    using lt0 rd by (subst walk_from.simps) (simp add: the_this_def trigger_visit_node)
  then show ?case using IH lt0 by (simp add: upt_conv_Cons)
qed

lemma join_slash_empty: "join_slash q = [] \<longleftrightarrow> q = [] \<or> q = [[]]"
  by (induction q rule: join_slash.induct) simp_all

text \<open>
  C6 (as amended). On a path whose segments are all read on containers, \<open>$.modelTrigger\<close>
  returns \<open>undefined\<close> and delivers, for the indices \<open>i\<close> from 0 to \<open>n - 1\<close> in this
  order, to the observers registered under the canonical string of the prefix of
  length \<open>i + 1\<close>; the registry is read under no other key. The root key \<open>/\<close> is among
  these keys only as the prefix of length one of a path whose first segment is empty.
\<close>

theorem trigger_prefixes:
  assumes "walkable (model s) p"
  shows "modelTrigger (RPath p) c ev src s
           = (Inr VUndef,
              s\<lparr>events := events s @ concat (map (deliveries src s p) [0 ..< length p])\<rparr>) \<and>
         (\<forall>i<length p. (path_toString (take (Suc i) p) = ''/'') = (i = 0 \<and> p ! 0 = []))"
proof
  show "modelTrigger (RPath p) c ev src s
           = (Inr VUndef,
              s\<lparr>events := events s @ concat (map (deliveries src s p) [0 ..< length p])\<rparr>)"
  proof (cases "p = []")
    case True
    then show ?thesis by (simp add: modelTrigger_def modelWalk_def walk_from_end)
  next
    case False
    have all: "\<forall>j<length p. is_container (get_at (model s) (take j p))"
      using walkable_containers [OF assms] by blast
    then have "is_container (model s)" using False by (auto dest: spec [of _ 0])
    then have r: "root s = Located (take 0 p)" by (simp add: root_def)
    from False have "0 < length p" by simp
    from trigger_walk [OF all this, of src] show ?thesis
      unfolding r [symmetric] by (auto simp: modelTrigger_def modelWalk_def)
  qed
next
  show "\<forall>i<length p. (path_toString (take (Suc i) p) = ''/'') = (i = 0 \<and> p ! 0 = [])"
  proof (intro allI impI)
    fix i assume lt: "i < length p"
    then obtain w ws where p: "p = w # ws" by (cases p) auto
    show "(path_toString (take (Suc i) p) = ''/'') = (i = 0 \<and> p ! 0 = [])"
      using lt unfolding p by (cases i; cases ws) (auto simp: path_toString_def join_slash_empty)
  qed
qed

theorem trigger_prefixes_witness:
  "walkable (VObj 0 [(''a'', VObj 1 [(''b'', VNum 1)])]) [''a'', ''b''] \<and>
   modelTrigger (RPath [''a'', ''b'']) RUndefined ''set'' RUndefined
       (init\<lparr>model := VObj 0 [(''a'', VObj 1 [(''b'', VNum 1)])],
             modelBinding := [''/'' \<mapsto> [Callback 0], ''/a'' \<mapsto> [Callback 1]]\<rparr>)
     = (Inr VUndef,
        init\<lparr>model := VObj 0 [(''a'', VObj 1 [(''b'', VNum 1)])],
             modelBinding := [''/'' \<mapsto> [Callback 0], ''/a'' \<mapsto> [Callback 1]],
             events := [Called 1 \<lparr>c_value = VObj 1 [(''b'', VNum 1)], c_path = [''a'', ''b''],
                                   c_pathIndex = 0,
                                   c_parent = Container (VObj 0 [(''a'', VObj 1 [(''b'', VNum 1)])])\<rparr>]\<rparr>)"
proof -
  let ?s = "init\<lparr>model := VObj 0 [(''a'', VObj 1 [(''b'', VNum 1)])],
                  modelBinding := [''/'' \<mapsto> [Callback 0], ''/a'' \<mapsto> [Callback 1]]\<rparr>"
  have h: "walkable (model ?s) [''a'', ''b'']" by (simp add: walkable_def lookup_def)
  have u: "[0 ..< length [''a'', ''b'']] = [0, Suc 0]" by (simp add: upt_conv_Cons)
  from trigger_prefixes [OF h, of RUndefined "''set''" RUndefined] h
  show ?thesis
    unfolding u
    by (simp add: deliveries_def bindings_at_def path_toString_def notify_def this_get_def
          get_prop_def receiver_of_def lookup_def init_def)
qed

text \<open>
  C6 as stated fails: the empty prefix is not looked up. With a callback registered
  under the root key \<open>/\<close>, \<open>$.modelSet('/a', 1)\<close> changes the store and nothing is
  delivered.
\<close>

theorem root_observer_counterexample:
  "modelGetBound (RStr ''/'') RUndefined
      (snd (modelBind (RStr ''/'') (Some (Callback 0)) RUndefined init)) = Inr (Some [Callback 0]) \<and>
   model (snd (modelSet (RStr ''/a'') (VNum 1) RUndefined RUndefined
      (snd (modelBind (RStr ''/'') (Some (Callback 0)) RUndefined init)))) = VObj 0 [(''a'', VNum 1)] \<and>
   events (snd (modelSet (RStr ''/a'') (VNum 1) RUndefined RUndefined
      (snd (modelBind (RStr ''/'') (Some (Callback 0)) RUndefined init)))) = []"
  by code_simp

section \<open>The walk of \<open>modelValue\<close> on a path through containers\<close>

lemma value_visit_present:
  assumes "i < length p" and "Suc i < length p \<longrightarrow> this_get s th (p ! i) \<noteq> VUndef"
  shows "value_visit mode th p i (c, s) = (Inr (), (Some th, Some (p ! i)), s)"
  using assms by (auto simp: value_visit_def Let_def last_index_conv)

lemma take_last_index:
  assumes "Suc i = length p"
  shows "take i p = butlast p" and "p ! i = last p"
proof -
  from assms have ne: "p \<noteq> []" and i: "i = length p - 1" by auto
  show "take i p = butlast p" unfolding i by (simp add: butlast_conv_take)
  from ne show "p ! i = last p" unfolding i by (simp add: last_conv_nth)
qed

lemma walk_present:
  assumes "\<forall>j<length p. is_container (get_at (model s) (take j p))" and "i < length p"
    and "clean s p"
  shows "walk_from (value_visit mode) p i (Located (take i p)) (c, s)
           = (Inr (locate s p), (Some (TNode (butlast p)), Some (last p)), s)"
  using assms
proof (induction "length p - i" arbitrary: i c)
  case 0
  then show ?case by simp
next
  case (Suc n)
  from Suc.prems(1,2) have ci: "is_container (get_at (model s) (take i p))" by blast
  note ni = clean_nth [OF Suc.prems(3) Suc.prems(2) ci]
  have tg: "this_get s (TNode (take i p)) (p ! i) = get_at (model s) (take (Suc i) p)"
    using Suc.prems(2) this_get_clean [OF Suc.prems(3) Suc.prems(2) ci]
    by (simp add: take_Suc_conv_app_nth get_at_snoc)
  have "Suc i < length p \<longrightarrow> this_get s (TNode (take i p)) (p ! i) \<noteq> VUndef"
    using Suc.prems(1) tg by (metis is_container_simps(3))
  from value_visit_present [OF Suc.prems(2) this]
  have vis: "value_visit mode (the_this (Located (take i p))) p i (c, s)
               = (Inr (), (Some (TNode (take i p)), Some (p ! i)), s)"
    by (simp add: the_this_def)
  have rd: "js_read s (Located (take i p)) (p ! i) = Inr (locate s (take (Suc i) p))"
    using Suc.prems(2) js_read_not_inherited [OF ni] by (simp add: take_Suc_conv_app_nth)
  have step: "walk_from (value_visit mode) p i (Located (take i p)) (c, s)
                = walk_from (value_visit mode) p (Suc i) (locate s (take (Suc i) p))
                    ((Some (TNode (take i p)), Some (p ! i)), s)"
    using Suc.prems(2) vis rd by (subst walk_from.simps) simp
  show ?case
  proof (cases "Suc i < length p")
    case True
    with Suc.prems(1) have "locate s (take (Suc i) p) = Located (take (Suc i) p)"
      by (simp add: locate_def)
    moreover have "n = length p - Suc i" using Suc.hyps(2) by simp
    ultimately show ?thesis
      using Suc.hyps(1) [OF _ Suc.prems(1) True Suc.prems(3)] step by simp
  next
    case False
    with Suc.prems(2) have e: "Suc i = length p" by simp
    then show ?thesis using step take_last_index [OF e] by (simp add: walk_from_end)
  qed
qed

lemma fresh_container_props:
  "is_container (fresh_container s nxt)"
  "own_prop (fresh_container s nxt) nxt = VUndef"
  "\<not> (is_array (fresh_container s nxt) \<and> nxt = ''length'')"
  using isNaN_length
  by (auto simp: fresh_container_def lookup_def split: option.splits)

lemma materializedI:
  assumes "global s1 = global s" and "modelBinding s1 = modelBinding s"
    and "modelOptions s1 = modelOptions s" and "events s1 = events s"
    and "next_id s \<le> next_id s1" and "valid_loc (model s1) (butlast p)"
    and "\<not> (is_array (get_at (model s1) (butlast p)) \<and> last p = ''length'')"
    and "get_at (model s1) p = get_at (model s) p"
    and "\<And>j. j < length p \<Longrightarrow> is_container (get_at (model s) (take j p)) \<Longrightarrow>
           is_array (get_at (model s1) (take j p)) = is_array (get_at (model s) (take j p))"
    and "\<And>j. Suc j < length p \<Longrightarrow> get_at (model s) (take (Suc j) p) = VUndef \<Longrightarrow>
           is_array (get_at (model s1) (take (Suc j) p))
             = (\<not> isNaN (p ! Suc j) \<and> createArrays (modelOptions s))"
    and "inherited s1 = inherited s"
  shows "materialized p s s1"
  unfolding materialized_def using assms by blast

lemma materialized_frame:
  assumes "materialized p s s1"
  shows "global s1 = global s" and "modelBinding s1 = modelBinding s"
    and "modelOptions s1 = modelOptions s" and "events s1 = events s"
    and "next_id s \<le> next_id s1" and "valid_loc (model s1) (butlast p)"
    and "\<not> (is_array (get_at (model s1) (butlast p)) \<and> last p = ''length'')"
    and "get_at (model s1) p = get_at (model s) p"
    and "inherited s1 = inherited s"
  using assms unfolding materialized_def by blast+

lemma materialized_kept:
  assumes "materialized p s s1" and "j < length p"
    and "is_container (get_at (model s) (take j p))"
  shows "is_array (get_at (model s1) (take j p)) = is_array (get_at (model s) (take j p))"
  using assms unfolding materialized_def by blast

lemma materialized_made:
  assumes "materialized p s s1" and "Suc j < length p"
    and "get_at (model s) (take (Suc j) p) = VUndef"
  shows "is_array (get_at (model s1) (take (Suc j) p))
           = (\<not> isNaN (p ! Suc j) \<and> createArrays (modelOptions s))"
  using assms unfolding materialized_def by blast

lemma materialized_refl:
  assumes "valid_loc (model s) (butlast p)"
    and "\<not> (is_array (get_at (model s) (butlast p)) \<and> last p = ''length'')"
  shows "materialized p s s"
proof (rule materializedI)
  fix j assume "Suc j < length p" and u: "get_at (model s) (take (Suc j) p) = VUndef"
  then have "is_container (get_at (model s) (take (Suc j) p))"
    using valid_butlast_containers [OF assms(1)] by blast
  with u show "is_array (get_at (model s) (take (Suc j) p))
                 = (\<not> isNaN (p ! Suc j) \<and> createArrays (modelOptions s))" by simp
qed (use assms in simp_all)

lemma walk_materialize:
  assumes "mode \<noteq> 2" and "valid_loc (model s) (take i p)" and "settable (model s) p i"
    and "clean s p"
  shows "\<exists>s1. walk_from (value_visit mode) p i (Located (take i p)) (c, s)
                 = (Inr (locate s1 p), (Some (TNode (butlast p)), Some (last p)), s1)
             \<and> materialized p s s1"
  using assms(2,3,4)
proof (induction "length p - i" arbitrary: i s c)
  case 0
  then show ?case by (subst (asm) settable.simps) simp
next
  case (Suc n)
  let ?loc = "take i p" and ?k = "p ! i"
  let ?node = "get_at (model s) ?loc"
  from Suc.hyps(2) have lt: "i < length p" by simp
  then have tk: "take (Suc i) p = ?loc @ [?k]" by (simp add: take_Suc_conv_app_nth)
  from Suc.prems(2) have cn: "is_container ?node"
    by (subst (asm) settable.simps) simp
  have n: "n = length p - Suc i" using Suc.hyps(2) by simp
  note ni = clean_nth [OF Suc.prems(3) lt cn]
  note tgc = this_get_clean [OF Suc.prems(3) lt cn]
  have rdl: "js_read s' (Located ?loc) ?k = Inr (locate s' (take (Suc i) p))"
    if "inherited s' = inherited s" and "is_container (get_at (model s') ?loc)" for s'
    using js_read_not_inherited [of s' ?loc ?k] clean_nth [of s' p i "get_at (model s') ?loc"]
      Suc.prems(3) lt that by (simp add: tk clean_def)
  show ?case
  proof (cases "Suc i < length p")
    case False
    with lt have e: "Suc i = length p" by simp
    have "\<not> (is_array ?node \<and> ?k = ''length'')"
      using Suc.prems(2) False by (subst (asm) settable.simps) simp
    then have m: "materialized p s s"
      using Suc.prems(1) take_last_index [OF e] by (simp add: materialized_refl)
    have vis: "value_visit mode (the_this (Located ?loc)) p i (c, s)
               = (Inr (), (Some (TNode ?loc), Some ?k), s)"
      using value_visit_present [OF lt, of s "TNode ?loc" mode c] False by (simp add: the_this_def)
    have rd: "js_read s (Located ?loc) ?k = Inr (locate s p)"
      using e rdl [of s] cn by simp
    have "walk_from (value_visit mode) p i (Located ?loc) (c, s)
            = (Inr (locate s p), (Some (TNode ?loc), Some ?k), s)"
      using lt vis e rd by (subst walk_from.simps) (simp add: walk_from_end)
    then have "walk_from (value_visit mode) p i (Located ?loc) (c, s)
            = (Inr (locate s p), (Some (TNode (butlast p)), Some (last p)), s)"
      using take_last_index [OF e] by simp
    with m show ?thesis by blast
  next
    case True
    show ?thesis
    proof (cases "own_prop ?node ?k = VUndef")
      case False
      with Suc.prems(2) True have st: "settable (model s) p (Suc i)"
        by (subst (asm) settable.simps) simp
      then have cc: "is_container (get_at (model s) (take (Suc i) p))"
        by (subst (asm) settable.simps) simp
      then have vl: "valid_loc (model s) (take (Suc i) p)"
        using Suc.prems(1) by (simp add: tk valid_loc_snoc get_at_snoc)
      have vis: "value_visit mode (the_this (Located ?loc)) p i (c, s)
               = (Inr (), (Some (TNode ?loc), Some ?k), s)"
        using value_visit_present [OF lt, of s "TNode ?loc" mode c] False
        by (simp add: the_this_def tgc)
      have "walk_from (value_visit mode) p i (Located ?loc) (c, s)
              = walk_from (value_visit mode) p (Suc i) (Located (take (Suc i) p))
                  ((Some (TNode ?loc), Some ?k), s)"
        using lt vis cc rdl [of s] cn
        by (subst walk_from.simps) (simp add: locate_def)
      with Suc.hyps(1) [OF n vl st Suc.prems(3)] show ?thesis by simp
    next
      case undef: True
      let ?c = "fresh_container s (p ! Suc i)"
      from get_set_prop [OF cn undef_child_not_length [OF undef], of ?c]
      obtain node' where sp: "own_set ?node ?k ?c = Inr node'" and cn': "is_container node'"
        and gp: "own_prop node' ?k = ?c" and ar: "is_array node' = is_array ?node" by blast
      let ?s' = "s\<lparr>next_id := Suc (next_id s), model := put_at (model s) ?loc node'\<rparr>"
      have ga: "get_at (model ?s') ?loc = node'"
        using get_put_at [OF Suc.prems(1)] by simp
      have vl0: "valid_loc (model ?s') ?loc"
        using valid_put_at [OF Suc.prems(1) cn'] by simp
      have gc: "get_at (model ?s') (take (Suc i) p) = ?c"
        by (simp only: tk get_at_snoc ga gp)
      have vl: "valid_loc (model ?s') (take (Suc i) p)"
        using vl0 ga gp fresh_container_props(1) [of s "p ! Suc i"]
        by (simp only: tk valid_loc_snoc)
      have st: "settable (model ?s') p (Suc i)"
        using gc fresh_container_props [of s "p ! Suc i"] True
        by (subst settable.simps) auto
      have cl': "clean (s\<lparr>next_id := Suc (next_id s)\<rparr>) p" using Suc.prems(3) by simp
      have cn0: "is_container (get_at (model (s\<lparr>next_id := Suc (next_id s)\<rparr>)) ?loc)"
        using cn by simp
      have ts: "this_set (TNode ?loc) ?k ?c (s\<lparr>next_id := Suc (next_id s)\<rparr>)
                  = (Inr (TNode ?loc), ?s')"
        using this_set_clean [OF cl' lt cn0, of ?c] sp by simp
      have vis: "value_visit mode (the_this (Located ?loc)) p i (c, s)
               = (Inr (), (Some (TNode ?loc), Some ?k), ?s')"
        using lt True undef ts assms(1)
        by (simp add: value_visit_def Let_def last_index_conv the_this_def tgc)
      have "walk_from (value_visit mode) p i (Located ?loc) (c, s)
              = walk_from (value_visit mode) p (Suc i) (Located (take (Suc i) p))
                  ((Some (TNode ?loc), Some ?k), ?s')"
        using lt vis gc fresh_container_props(1) [of s "p ! Suc i"] rdl [of ?s'] ga cn'
        by (subst walk_from.simps) (simp add: locate_def)
      moreover have "clean ?s' p" using Suc.prems(3) by simp
      ultimately obtain s1 where
        w: "walk_from (value_visit mode) p i (Located ?loc) (c, s)
              = (Inr (locate s1 p), (Some (TNode (butlast p)), Some (last p)), s1)"
        and m: "materialized p ?s' s1" using Suc.hyps(1) [OF n vl st] by auto
      have "get_at (model s) p = get_at (get_at (model s) (take (Suc i) p)) (drop (Suc i) p)"
        by (metis append_take_drop_id get_at_append)
      then have u1: "get_at (model s) p = VUndef"
        using undef by (simp add: tk get_at_snoc)
      have "get_at (model ?s') p = get_at ?c (drop (Suc i) p)"
        by (metis append_take_drop_id get_at_append gc)
      also have "\<dots> = VUndef"
        using True fresh_container_props(2) [of s "p ! Suc i"]
        by (simp add: Cons_nth_drop_Suc [symmetric])
      finally have u2: "get_at (model ?s') p = VUndef" .
      note fr = materialized_frame [OF m]
      have below: "get_at (model s) (take b p) = VUndef" if "i < b" for b
        using get_at_below_fresh [OF undef lt that] .
      have kept: "is_array (get_at (model s1) (take j p)) = is_array (get_at (model s) (take j p))"
        if jl: "j < length p" and cj: "is_container (get_at (model s) (take j p))" for j
      proof -
        have ji: "j \<le> i" using below [of j] cj by (cases "i < j") auto
        then have tj: "take j p = take j ?loc" by (simp add: min.absorb1)
        have "is_container (get_at (model ?s') (take j ?loc))"
          using valid_loc_take [OF vl0] by simp
        then have "is_array (get_at (model s1) (take j p))
                     = is_array (get_at (model ?s') (take j ?loc))"
          using materialized_kept [OF m jl] tj by simp
        also have "\<dots> = is_array (get_at (model s) (take j ?loc))"
          using kind_put_at [OF Suc.prems(1) cn' ar, of j] by simp
        finally show ?thesis using tj by simp
      qed
      have made: "is_array (get_at (model s1) (take (Suc j) p))
                    = (\<not> isNaN (p ! Suc j) \<and> createArrays (modelOptions s))"
        if jl: "Suc j < length p" and uj: "get_at (model s) (take (Suc j) p) = VUndef" for j
      proof -
        have ij: "i \<le> j"
        proof (rule ccontr)
          assume "\<not> i \<le> j"
          then have "take (Suc j) p = take (Suc j) ?loc" by (simp add: min.absorb1)
          then have "is_container (get_at (model s) (take (Suc j) p))"
            using valid_loc_take [OF Suc.prems(1), of "Suc j"] by simp
          with uj show False by simp
        qed
        show ?thesis
        proof (cases "i = j")
          case True
          have "is_container (get_at (model ?s') (take (Suc i) p))"
            using gc fresh_container_props(1) [of s "p ! Suc i"] by simp
          from materialized_kept [OF m \<open>Suc i < length p\<close> this]
          have "is_array (get_at (model s1) (take (Suc i) p)) = is_array ?c"
            using gc by simp
          then show ?thesis using True by (auto simp: fresh_container_def)
        next
          case False
          with ij have "Suc i < Suc j" by simp
          moreover have "own_prop (get_at (model ?s') (take (Suc i) p)) (p ! Suc i) = VUndef"
            using gc fresh_container_props(2) [of s "p ! Suc i"] by simp
          ultimately have "get_at (model ?s') (take (Suc j) p) = VUndef"
            using get_at_below_fresh [of "model ?s'" "Suc i" p "Suc j"] \<open>Suc i < length p\<close>
            by blast
          from materialized_made [OF m jl this] show ?thesis by simp
        qed
      qed
      have "materialized p s s1"
      proof (rule materializedI)
        show "get_at (model s1) p = get_at (model s) p" using fr(8) u1 u2 by simp
        show "next_id s \<le> next_id s1" using fr(5) by simp
      qed (use fr kept made in simp_all)
      with w show ?thesis by blast
    qed
  qed
qed

section \<open>\<open>modelValue\<close> on a path through containers\<close>

lemma strict_eq_refl: "v \<noteq> VNaN \<Longrightarrow> strict_eq v v"
  by (cases v) (simp_all add: strict_eq_def)

lemma same_value_refl: "same_value v v"
  by (cases v) (simp_all add: same_value_def strict_eq_def)

lemma get_at_butlast_last: "p \<noteq> [] \<Longrightarrow> own_prop (get_at m (butlast p)) (last p) = get_at m p"
  by (metis append_butlast_last_id get_at_snoc)

lemma settable_root: "settable m p 0 \<Longrightarrow> is_container m \<and> p \<noteq> []"
  by (subst (asm) settable.simps) (auto split: if_splits)

lemma modelValue_walk:
  "modelValue (RPath p) mode v src s
     = (case walk_from (value_visit mode) p 0 (root s) ((None, None), s) of
        (Inl ex, c, s1) \<Rightarrow>
          (if mode = 2 \<and> ex = ReferenceError then (Inr VUndef, s1) else (Inl ex, s1))
      | (Inr x, (parent, prop'), s1) \<Rightarrow>
          (let currval = deref s1 x; prop = (case prop' of None \<Rightarrow> ''undefined'' | Some k \<Rightarrow> k) in
           if mode = 1 then
             (case parent of
                None \<Rightarrow> (Inl TypeError, s1)
              | Some th \<Rightarrow>
                  if \<not> strict_eq (this_get s1 th prop) v
                  then (case this_set th prop v s1 of
                          (Inl ex, s2) \<Rightarrow> (Inl ex, s2)
                        | (Inr th', s2) \<Rightarrow>
                            (case modelTrigger (RPath p) RUndefined ''set'' src s2 of
                               (Inl ex, s3) \<Rightarrow> (Inl ex, s3)
                             | (Inr u, s3) \<Rightarrow> (Inr (this_get s3 th' prop), s3)))
                  else (Inr (this_get s1 th prop), s1))
           else if mode = 2 then
             (case parent of
                None \<Rightarrow> (Inl TypeError, s1)
              | Some th \<Rightarrow>
                  (case (if truthy_val (this_get s1 th ''splice'')
                         then call_splice (this_get s1 th ''splice'') th prop s1
                         else this_delete th prop s1) of
                     Inl ex \<Rightarrow> (Inl ex, s1)
                   | Inr s2 \<Rightarrow>
                       (case modelTrigger (RPath p) RUndefined ''delete'' src s2 of
                          (Inl ex, s3) \<Rightarrow> (Inl ex, s3)
                        | (Inr u, s3) \<Rightarrow> (Inr currval, s3))))
           else (Inr currval, s1)))"
  by (simp add: modelValue_def modelWalk_def)

lemma deref_locate [simp]: "deref s (locate s loc) = get_at (model s) loc"
  by (simp add: deref_def locate_def)

text \<open>A get, and a set of the value that is there, on a path whose containers exist.\<close>

lemma modelValue_get_present:
  assumes "p \<noteq> []" and "valid_loc (model s) (butlast p)" and "clean s p"
  shows "modelValue (RPath p) 0 v src s = (Inr (get_at (model s) p), s)"
proof -
  from assms(2) have "is_container (model s)" by (rule valid_loc_root)
  then have r: "root s = Located (take 0 p)" by (simp add: root_def)
  from walk_present [OF valid_butlast_containers [OF assms(2)] _ assms(3), of 0 0 "(None, None)"]
    assms(1)
  show ?thesis by (simp add: modelValue_walk r)
qed

lemma this_get_last:
  assumes "p \<noteq> []" and "valid_loc (model s) (butlast p)" and "clean s p"
  shows "this_get s (TNode (butlast p)) (last p) = get_at (model s) p"
  using clean_last [OF assms(3,1) valid_loc_end [OF assms(2)]] assms(1)
  by (simp add: this_get_node get_prop_not_inherited get_at_butlast_last)

lemma this_set_last:
  assumes "p \<noteq> []" and "valid_loc (model s) (butlast p)" and "clean s p"
  shows "this_set (TNode (butlast p)) (last p) v s =
           (case own_set (get_at (model s) (butlast p)) (last p) v of
              Inl e \<Rightarrow> (Inl e, s)
            | Inr node \<Rightarrow> (Inr (TNode (butlast p)), s\<lparr>model := put_at (model s) (butlast p) node\<rparr>))"
  using clean_last [OF assms(3,1) valid_loc_end [OF assms(2)]]
  by (simp add: this_set_def set_prop_not_inherited)

lemma modelValue_set_same:
  assumes "p \<noteq> []" and "valid_loc (model s) (butlast p)"
    and "strict_eq (get_at (model s) p) v" and "clean s p"
  shows "modelValue (RPath p) 1 v src s = (Inr (get_at (model s) p), s)"
proof -
  from assms(2) have "is_container (model s)" by (rule valid_loc_root)
  then have r: "root s = Located (take 0 p)" by (simp add: root_def)
  from walk_present [OF valid_butlast_containers [OF assms(2)] _ assms(4), of 0 1 "(None, None)"]
    assms(1,3)
  show ?thesis
    by (simp add: modelValue_walk r this_get_last [OF assms(1,2,4)])
qed

text \<open>A set on a settable path.\<close>

lemma modelValue_set:
  assumes "settable (model s) p 0" and "clean s p"
  shows "\<exists>r s3. modelValue (RPath p) 1 v src s = (Inr r, s3) \<and> same_value r v \<and>
            get_at (model s3) p = r \<and> (\<not> strict_eq (get_at (model s) p) v \<longrightarrow> r = v) \<and>
            valid_loc (model s3) (butlast p) \<and>
            \<not> (is_array (get_at (model s3) (butlast p)) \<and> last p = ''length'') \<and>
            global s3 = global s \<and> inherited s3 = inherited s \<and>
            modelBinding s3 = modelBinding s \<and>
            modelOptions s3 = modelOptions s \<and> next_id s \<le> next_id s3 \<and>
            events s3 = events s @
              (if strict_eq (get_at (model s) p) v then []
               else concat (map (deliveries src s3 p) [0 ..< length p])) \<and>
            (\<forall>j. Suc j < length p \<and> get_at (model s) (take (Suc j) p) = VUndef \<longrightarrow>
               is_array (get_at (model s3) (take (Suc j) p))
                 = (\<not> isNaN (p ! Suc j) \<and> createArrays (modelOptions s)))"
proof -
  from settable_root [OF assms(1)] have cm: "is_container (model s)" and ne: "p \<noteq> []" by simp_all
  then have r: "root s = Located (take 0 p)" and vl0: "valid_loc (model s) (take 0 p)"
    by (simp_all add: root_def)
  from walk_materialize [OF _ vl0 _ assms(2), of 1 "(None, None)"] assms(1)
  obtain s1 where w: "walk_from (value_visit 1) p 0 (root s) ((None, None), s)
                        = (Inr (locate s1 p), (Some (TNode (butlast p)), Some (last p)), s1)"
    and m: "materialized p s s1" by (auto simp: r)
  let ?bl = "butlast p" and ?k = "last p"
  from materialized_frame [OF m] have vl: "valid_loc (model s1) ?bl"
    and ok: "\<not> (is_array (get_at (model s1) ?bl) \<and> ?k = ''length'')"
    and same: "get_at (model s1) p = get_at (model s) p"
    and fr: "global s1 = global s" "modelBinding s1 = modelBinding s"
            "modelOptions s1 = modelOptions s" "events s1 = events s" "next_id s \<le> next_id s1"
            "inherited s1 = inherited s"
    by simp_all
  from assms(2) fr(6) have cl1: "clean s1 p" by (simp add: clean_def)
  have made: "is_array (get_at (model s1) (take (Suc j) p))
                = (\<not> isNaN (p ! Suc j) \<and> createArrays (modelOptions s))"
    if "Suc j < length p" and "get_at (model s) (take (Suc j) p) = VUndef" for j
    using materialized_made [OF m that] .
  have cur: "this_get s1 (TNode ?bl) ?k = get_at (model s) p"
    using same this_get_last [OF ne vl cl1] by simp
  show ?thesis
  proof (cases "strict_eq (get_at (model s) p) v")
    case True
    then have "modelValue (RPath p) 1 v src s = (Inr (get_at (model s1) p), s1)"
      using w cur same by (simp add: modelValue_walk)
    moreover have "same_value (get_at (model s1) p) v"
      using True same by (simp add: same_value_def)
    ultimately show ?thesis using vl ok fr True made by simp
  next
    case False
    from get_set_prop [OF valid_loc_end [OF vl] ok, of v]
    obtain node' where sp: "own_set (get_at (model s1) ?bl) ?k v = Inr node'"
      and cn: "is_container node'" and gp: "own_prop node' ?k = v"
      and ar: "is_array node' = is_array (get_at (model s1) ?bl)" by blast
    let ?s2 = "s1\<lparr>model := put_at (model s1) ?bl node'\<rparr>"
    have ts: "this_set (TNode ?bl) ?k v s1 = (Inr (TNode ?bl), ?s2)"
      using sp this_set_last [OF ne vl cl1, of v] by simp
    have ga: "get_at (model ?s2) ?bl = node'" using get_put_at [OF vl] by simp
    have vl2: "valid_loc (model ?s2) ?bl" using valid_put_at [OF vl cn] by simp
    let ?s3 = "?s2\<lparr>events := events ?s2 @ concat (map (deliveries src ?s2 p) [0 ..< length p])\<rparr>"
    have "is_container (model ?s2)" using vl2 by (rule valid_loc_root)
    then have r2: "root ?s2 = Located (take 0 p)" by (simp add: root_def)
    from ne have "0 < length p" by simp
    from trigger_walk [OF valid_butlast_containers [OF vl2] this, of src]
    have tr: "modelTrigger (RPath p) RUndefined ''set'' src ?s2 = (Inr VUndef, ?s3)"
      unfolding r2 [symmetric] by (auto simp: modelTrigger_def modelWalk_def)
    have cl3: "clean ?s3 p" using cl1 by simp
    have "valid_loc (model ?s3) ?bl" using vl2 by simp
    from this_get_last [OF ne this cl3]
    have val: "this_get ?s3 (TNode ?bl) ?k = v"
      using ga gp get_at_butlast_last [OF ne, of "model ?s3"] by simp
    have mv: "modelValue (RPath p) 1 v src s = (Inr v, ?s3)"
      using w cur False ts tr val by (simp add: modelValue_walk)
    have "get_at (model ?s3) p = v"
      using ga gp get_at_butlast_last [OF ne, of "model ?s3"] by simp
    moreover have "\<not> (is_array (get_at (model ?s3) ?bl) \<and> ?k = ''length'')"
      using ga ar ok by simp
    moreover have "valid_loc (model ?s3) ?bl" using vl2 by simp
    moreover have "is_array (get_at (model ?s3) (take (Suc j) p))
                = (\<not> isNaN (p ! Suc j) \<and> createArrays (modelOptions s))"
      if jl: "Suc j < length p" and uj: "get_at (model s) (take (Suc j) p) = VUndef" for j
    proof -
      from jl have tj: "take (Suc j) p = take (Suc j) ?bl" by (simp add: take_butlast)
      have "is_array (get_at (model ?s3) (take (Suc j) ?bl))
              = is_array (get_at (model s1) (take (Suc j) ?bl))"
        using kind_put_at [OF vl cn ar, of "Suc j"] by simp
      then show ?thesis using made [OF jl uj] tj by simp
    qed
    ultimately show ?thesis using mv fr False same_value_refl [of v] by simp
  qed
qed

section \<open>Set, then get or set again\<close>

lemma same_value_primitive: "same_value a b \<Longrightarrow> \<not> is_container b \<Longrightarrow> a = b"
  by (cases a; cases b) (simp_all add: same_value_def strict_eq_def)

lemma same_value_strict: "same_value a b \<Longrightarrow> b \<noteq> VNaN \<Longrightarrow> strict_eq a b"
  by (simp add: same_value_def)




text \<open>
  On a path with an inherited name the claim of C3 is not made: the walk reads
  \<open>Object.prototype\<close> at \<open>/__proto__\<close> and the function \<open>Object\<close> at \<open>/constructor\<close>,
  and what a write through them does is the host's affair.
\<close>

lemma inherited_segment_read:
  "\<not> clean init [''__proto__''] \<and> \<not> clean init [''constructor'', ''prototype''] \<and>
   fst (modelGet (RStr ''/__proto__'') RUndefined init) = Inr (VHost 110) \<and>
   fst (modelGet (RStr ''/constructor'') RUndefined init) = Inr (VHost 100) \<and>
   fst (modelSet (RStr ''/__proto__'') (VNum 1) RUndefined RUndefined init) = Inl Beyond \<and>
   fst (modelSet (RPath [''constructor'', ''prototype'']) (VNum 1) RUndefined RUndefined init)
     = Inl Beyond"
  by code_simp




section \<open>Hierarchical notification\<close>

text \<open>
  The observers of a prefix that a dispatch with the source \<open>src\<close> reaches: the
  functions, and the other observers that are not \<open>src\<close>.
\<close>

lemma observers_of_notify:
  "map observer_of (concat (map (notify src th p i s) bs)) = filter (reached src) bs"
proof (induction bs)
  case Nil
  show ?case by simp
next
  case (Cons b bs)
  then show ?case by (cases b) (auto simp: notify_def observer_of_def reached_def)
qed

lemma data_of_notify:
  "e \<in> set (notify src th p i s b) \<Longrightarrow>
     data_of e = \<lparr> c_value = this_get s th (p ! i), c_path = p, c_pathIndex = i,
                   c_parent = receiver_of s th \<rparr>"
  by (cases b) (auto simp: notify_def data_of_def split: if_splits)




section \<open>Defaults\<close>

lemma settable_of_valid:
  assumes "\<forall>j<length p. is_container (get_at m (take j p))"
    and "\<not> (is_array (get_at m (butlast p)) \<and> last p = ''length'')"
    and "i < length p"
  shows "settable m p i"
  using assms(3)
proof (induction "length p - i" arbitrary: i)
  case 0
  then show ?case by simp
next
  case (Suc n)
  show ?case
  proof (cases "Suc i < length p")
    case True
    moreover have "n = length p - Suc i" using Suc.hyps(2) by simp
    ultimately have "settable m p (Suc i)" using Suc.hyps(1) by blast
    then show ?thesis using assms(1) Suc.prems True by (subst settable.simps) simp
  next
    case False
    with Suc.prems have e: "Suc i = length p" by simp
    from assms(1) Suc.prems have "is_container (get_at m (take i p))" by simp
    moreover have "\<not> (is_array (get_at m (take i p)) \<and> p ! i = ''length'')"
      using assms(2) take_last_index [OF e] by simp
    ultimately show ?thesis using Suc.prems False
      by (subst settable.simps) simp
  qed
qed

lemma modelValue_get_settable:
  assumes "settable (model s) p 0" and "clean s p"
  shows "\<exists>s1. modelValue (RPath p) 0 v src s = (Inr (get_at (model s) p), s1) \<and>
              materialized p s s1"
proof -
  from settable_root [OF assms(1)] have cm: "is_container (model s)" and ne: "p \<noteq> []"
    by simp_all
  then have r: "root s = Located (take 0 p)" and vl0: "valid_loc (model s) (take 0 p)"
    by (simp_all add: root_def)
  from walk_materialize [OF _ vl0 _ assms(2), of 0 "(None, None)"] assms(1)
  obtain s1 where w: "walk_from (value_visit 0) p 0 (root s) ((None, None), s)
                        = (Inr (locate s1 p), (Some (TNode (butlast p)), Some (last p)), s1)"
    and m: "materialized p s s1" by (auto simp: r)
  from materialized_frame(8) [OF m] have "get_at (model s1) p = get_at (model s) p" .
  with w m show ?thesis by (auto simp: modelValue_walk)
qed

lemma lookup_Nil [simp]: "lookup [] k = VUndef"
  by (simp add: lookup_def)

lemma lookup_in_keys: "lookup ps k \<noteq> VUndef \<Longrightarrow> k \<in> fst ` set ps"
  by (auto simp: lookup_def split: option.splits dest!: map_of_SomeD intro: rev_image_eqI)

lemma lookup_assign_other: "k' \<noteq> k \<Longrightarrow> lookup (assign k' v ps) k = lookup ps k"
  by (induction ps) (auto simp: lookup_def)

lemma keys_assign: "fst ` set (assign k v ps) = insert k (fst ` set ps)"
proof (induction ps)
  case Nil
  show ?case by simp
next
  case (Cons kv ps)
  obtain k' v' where kv: "kv = (k', v')" by (cases kv)
  show ?case
  proof (cases "k' = k")
    case True
    then show ?thesis by (simp add: kv)
  next
    case False
    then show ?thesis using Cons.IH by (simp add: kv insert_commute)
  qed
qed

text \<open>The object that the copies build when no copy meets an inherited name.\<close>

lemma copy_into_keys:
  assumes "list_all (\<lambda>k. k \<noteq> ''__proto__'' \<and> map_of (H KObject) k = None) (map fst kvs)"
  shows "\<exists>t. copy_into H acc kvs = Inr t \<and> fst ` set t \<subseteq> fst ` set acc \<union> fst ` set kvs \<and>
             (\<forall>k. lookup t k
                    = (case map_of (rev (filter (\<lambda>kv. snd kv \<noteq> VUndef) kvs)) k of
                         Some x \<Rightarrow> x | None \<Rightarrow> lookup acc k))"
  using assms
proof (induction kvs arbitrary: acc)
  case Nil
  show ?case by simp
next
  case (Cons kv kvs)
  obtain name copy where kv: "kv = (name, copy)" by (cases kv)
  from Cons.prems have rest: "list_all (\<lambda>k. k \<noteq> ''__proto__'' \<and> map_of (H KObject) k = None)
                                (map fst kvs)"
    and nm: "name \<noteq> ''__proto__''" "map_of (H KObject) name = None" by (simp_all add: kv)
  show ?case
  proof (cases "copy = VUndef")
    case True
    from Cons.IH [OF rest, of acc] obtain t where
      "copy_into H acc kvs = Inr t" "fst ` set t \<subseteq> fst ` set acc \<union> fst ` set kvs"
      "\<forall>k. lookup t k = (case map_of (rev (filter (\<lambda>kv. snd kv \<noteq> VUndef) kvs)) k of
                           Some x \<Rightarrow> x | None \<Rightarrow> lookup acc k)" by blast
    then show ?thesis using True by (auto simp: kv)
  next
    case False
    from Cons.IH [OF rest, of "assign name copy acc"] obtain t where
      c: "copy_into H (assign name copy acc) kvs = Inr t"
      and k: "fst ` set t \<subseteq> fst ` set (assign name copy acc) \<union> fst ` set kvs"
      and l: "\<forall>k. lookup t k = (case map_of (rev (filter (\<lambda>kv. snd kv \<noteq> VUndef) kvs)) k of
                           Some x \<Rightarrow> x | None \<Rightarrow> lookup (assign name copy acc) k)" by blast
    have "copy_into H acc (kv # kvs) = Inr t" using c False nm by (simp add: kv)
    moreover have "fst ` set t \<subseteq> fst ` set acc \<union> fst ` set (kv # kvs)"
      using k by (auto simp: keys_assign kv)
    moreover have "lookup t k
                    = (case map_of (rev (filter (\<lambda>kv. snd kv \<noteq> VUndef) (kv # kvs))) k of
                         Some x \<Rightarrow> x | None \<Rightarrow> lookup acc k)" for k
      using l False
      by (cases "k = name")
         (auto simp: kv map_add_def lookup_assign_other lookup_assign split: option.splits)
    ultimately show ?thesis by blast
  qed
qed

lemma map_of_graph:
  "map_of (rev (filter (\<lambda>kv. snd kv \<noteq> VUndef) (map (\<lambda>k. (k, f k)) ks))) k
     = (if k \<in> set ks \<and> f k \<noteq> VUndef then Some (f k) else None)"
  by (induction ks) (auto simp: map_add_def split: option.splits)

lemma own_enum_plain:
  "plain v \<Longrightarrow> \<exists>ks. own_enum v = map (\<lambda>k. (k, own_prop v k)) ks \<and>
                     (\<forall>k. own_prop v k \<noteq> VUndef \<longrightarrow> k \<in> set ks)"
proof (cases v)
  case (VObj i ps)
  have "own_enum v = map (\<lambda>k. (k, own_prop v k)) (remdups (map fst ps))"
    by (simp add: VObj own_enum_def own_props_def)
  moreover have "\<forall>k. own_prop v k \<noteq> VUndef \<longrightarrow> k \<in> set (remdups (map fst ps))"
    using lookup_in_keys [of ps] by (auto simp: VObj)
  ultimately show ?thesis by blast
qed (auto simp: plain_def own_enum_def)

lemma inherited_enum_none:
  assumes "no_enumerable H"
  shows "inherited_enum H v = []"
proof (cases "kind_of v")
  case None
  then show ?thesis by (simp add: inherited_enum_def)
next
  case (Some kd)
  from assms have "list_all (\<lambda>e. \<not> snd (snd e)) (H kd)"
    by (cases kd) (simp_all add: no_enumerable_def)
  then have "\<not> e" if "map_of (H kd) k = Some (x, e)" for k x e
    using map_of_SomeD [OF that] by (auto simp: list_all_iff)
  then have "\<not> (case inherited_prop H v k of None \<Rightarrow> False | Some (x, e) \<Rightarrow> e)" for k
    by (auto simp: inherited_prop_def Some split: option.splits)
  then show ?thesis by (simp add: inherited_enum_def Some)
qed

lemma enum_props_plain:
  assumes "no_enumerable H" and "plain v"
  shows "enum_props H v = Some (own_enum v)"
  using assms(2) inherited_enum_none [OF assms(1), of v]
  by (cases v) (simp_all add: enum_props_def plain_def)

text \<open>What \<open>$.extend({}, d, cur)\<close> holds under each key.\<close>

lemma extend_merge:
  assumes "no_enumerable H" and "mergeable H d" and "mergeable H cur"
  shows "\<exists>t. extend H n [d, cur] = Inr (VObj n t) \<and>
             (\<forall>k. lookup t k = (if own_prop cur k \<noteq> VUndef then own_prop cur k else own_prop d k)) \<and>
             mergeable H (VObj n t)"
proof -
  let ?P = "\<lambda>k. k \<noteq> ''__proto__'' \<and> map_of (H KObject) k = None"
  from assms(2,3) have pd: "plain d" and pc: "plain cur"
    and kd: "list_all ?P (map fst (own_enum d))" and kc: "list_all ?P (map fst (own_enum cur))"
    by (simp_all add: mergeable_def)
  from own_enum_plain [OF pd] obtain ksd where
    d: "own_enum d = map (\<lambda>k. (k, own_prop d k)) ksd"
    and dk: "\<forall>k. own_prop d k \<noteq> VUndef \<longrightarrow> k \<in> set ksd" by blast
  from own_enum_plain [OF pc] obtain ksc where
    c: "own_enum cur = map (\<lambda>k. (k, own_prop cur k)) ksc"
    and ck: "\<forall>k. own_prop cur k \<noteq> VUndef \<longrightarrow> k \<in> set ksc" by blast
  from kd kc have "list_all ?P (map fst (own_enum d @ own_enum cur))" by simp
  from copy_into_keys [of H "own_enum d @ own_enum cur" "[]", OF this] obtain t where
    ci: "copy_into H [] (own_enum d @ own_enum cur) = Inr t"
    and keys: "fst ` set t \<subseteq> fst ` set (own_enum d @ own_enum cur)"
    and lk: "\<forall>k. lookup t k
               = (case map_of (rev (filter (\<lambda>kv. snd kv \<noteq> VUndef) (own_enum d @ own_enum cur))) k of
                    Some x \<Rightarrow> x | None \<Rightarrow> lookup [] k)" by auto
  have ex: "extend H n [d, cur] = Inr (VObj n t)"
    using ci by (simp add: extend_def enum_props_plain [OF assms(1)] pd pc)
  have val: "lookup t k = (if own_prop cur k \<noteq> VUndef then own_prop cur k else own_prop d k)" for k
  proof -
    have "lookup t k
            = (case map_of (rev (filter (\<lambda>kv. snd kv \<noteq> VUndef) (own_enum d @ own_enum cur))) k of
                 Some x \<Rightarrow> x | None \<Rightarrow> VUndef)"
      using lk unfolding lookup_Nil by blast
    also have "\<dots> = (if own_prop cur k \<noteq> VUndef then own_prop cur k else own_prop d k)"
    proof -
      from dk have "own_prop d k \<noteq> VUndef \<longrightarrow> k \<in> set ksd" by blast
      moreover from ck have "own_prop cur k \<noteq> VUndef \<longrightarrow> k \<in> set ksc" by blast
      ultimately show ?thesis
        unfolding d c rev_append filter_append map_of_append
        by (auto simp: map_of_graph map_add_def split: option.splits)
    qed
    finally show ?thesis .
  qed
  have "list_all ?P (map fst t)"
    unfolding list_all_iff
  proof
    fix k assume "k \<in> set (map fst t)"
    then have "k \<in> fst ` set (own_enum d @ own_enum cur)" using keys by auto
    then have "k \<in> set (map fst (own_enum d)) \<or> k \<in> set (map fst (own_enum cur))" by auto
    then show "?P k" using kd kc unfolding list_all_iff by blast
  qed
  then have "mergeable H (VObj n t)"
    by (simp add: mergeable_def plain_def own_enum_def own_props_def comp_def list_all_iff)
  with ex val show ?thesis by blast
qed

lemma fresh_not_strict_eq: "fresh_at s p \<Longrightarrow> \<not> strict_eq (get_at (model s) p) (VObj (next_id s) t)"
  by (cases "get_at (model s) p") (simp_all add: fresh_at_def strict_eq_def)

lemma defaults_step:
  assumes "modelPath (modelOptions s) r RUndefined = Inr (RPath p)"
    and "settable (model s) p 0" and "clean s p" and "fresh_at s p"
    and "extend (inherited s) (next_id s) [d, get_at (model s) p] = Inr e"
    and "e = VObj (next_id s) t"
  shows "\<exists>s1. modelDefaults r d s = (Inr VUndef, s1) \<and>
              get_at (model s1) p = e \<and>
              settable (model s1) p 0 \<and> modelOptions s1 = modelOptions s \<and>
              inherited s1 = inherited s \<and> next_id s < next_id s1"
proof -
  let ?s0 = "s\<lparr>next_id := Suc (next_id s)\<rparr>"
  let ?cur = "get_at (model s) p"
  from settable_root [OF assms(2)] have ne: "p \<noteq> []" by simp
  have st0: "settable (model ?s0) p 0" using assms(2) by simp
  have cl0: "clean ?s0 p" using assms(3) by simp
  from modelValue_get_settable [OF st0 cl0, of VUndef RUndefined] obtain sa where
    g: "modelValue (RPath p) 0 VUndef RUndefined ?s0 = (Inr ?cur, sa)"
    and m: "materialized p ?s0 sa" by auto
  from materialized_frame [OF m] have vl: "valid_loc (model sa) (butlast p)"
    and ok: "\<not> (is_array (get_at (model sa) (butlast p)) \<and> last p = ''length'')"
    and same: "get_at (model sa) p = ?cur"
    and oa: "modelOptions sa = modelOptions s" and na: "Suc (next_id s) \<le> next_id sa"
    and ha: "inherited sa = inherited s"
    by simp_all
  have sta: "settable (model sa) p 0"
    using settable_of_valid [OF valid_butlast_containers [OF vl] ok] ne by simp
  have cla: "clean sa p" using assms(3) ha by (simp add: clean_def)
  have ns: "\<not> strict_eq (get_at (model sa) p) e"
    using fresh_not_strict_eq [OF assms(4)] same assms(6) by simp
  from modelValue_set [OF sta cla, of e RUndefined] ns obtain s3 where
    sv: "modelValue (RPath p) 1 e RUndefined sa = (Inr e, s3)"
    and g3: "get_at (model s3) p = e"
    and vl3: "valid_loc (model s3) (butlast p)"
    and ok3: "\<not> (is_array (get_at (model s3) (butlast p)) \<and> last p = ''length'')"
    and o3: "modelOptions s3 = modelOptions sa" and n3: "next_id sa \<le> next_id s3"
    and h3: "inherited s3 = inherited sa"
    by auto
  have st3: "settable (model s3) p 0"
    using settable_of_valid [OF valid_butlast_containers [OF vl3] ok3] ne by simp
  have "modelDefaults r d s = (Inr VUndef, s3)"
    using assms(1,5) g sv oa ha by (simp add: modelDefaults_def modelGet_def modelSet_def)
  then show ?thesis using g3 st3 o3 oa na n3 h3 ha by auto
qed





section \<open>The kind of a container that is created\<close>

text \<open>
  What \<open>isNaN\<close> takes for a number: \<open>ToNumber\<close> trims white space, the no-break space
  included, and reads binary, octal and hexadecimal literals.
\<close>

lemma isNaN_examples:
  "\<not> isNaN ''0'' \<and> \<not> isNaN '' 12 '' \<and> \<not> isNaN [CHR 0xA0, CHR ''7''] \<and> \<not> isNaN ''0b11'' \<and>
   \<not> isNaN ''0o17'' \<and> \<not> isNaN ''0x1F'' \<and> \<not> isNaN ''1e3'' \<and> \<not> isNaN ''-.5'' \<and>
   \<not> isNaN ''Infinity'' \<and> \<not> isNaN [] \<and>
   isNaN ''-0x1F'' \<and> isNaN ''0b12'' \<and> isNaN ''1 2'' \<and> isNaN ''x'' \<and> isNaN ''infinity''"
  by code_simp



end
